theory Spec2Isabelle
  imports Main "HOL-Library.Word"
begin

section \<open>Outcomes of an operation\<close>

text \<open>
  The headers under \<^verbatim>\<open>isc/\<close> are macros over C structures. Every macro is embedded as
  a function from the state it touches to either the way it stops or the state it
  leaves. An operation stops when an assertion macro aborts the program, when it reads
  through the \<^verbatim>\<open>(void *)(-1)\<close> marker as if it were an address, or when it waits for
  a mutex that is held (in the sequential reading of the code nobody can release it).
\<close>

datatype halt = Require_failed | Insist_failed | Runtime_check_failed | Bad_pointer | Blocked

text \<open>Waiting is not a fault: only the first four ways of stopping are.\<close>

definition is_fault :: "halt \<Rightarrow> bool" where
  "is_fault h = (h \<noteq> Blocked)"

definition andthen :: "halt + 'a \<Rightarrow> ('a \<Rightarrow> halt + 'b) \<Rightarrow> halt + 'b" where
  "andthen m f = (case m of Inl h \<Rightarrow> Inl h | Inr x \<Rightarrow> f x)"

text \<open>
  Modelled from the spec: \<^verbatim>\<open>isc/assertions.h\<close> and \<^verbatim>\<open>isc/error.h\<close> are included by
  the headers but are not among the sources. The spec calls a violated requirement a
  fatal programming-error fault that halts the program instead of returning a status.
\<close>

definition ISC_REQUIRE :: "bool \<Rightarrow> halt + unit" where
  "ISC_REQUIRE c = (if c then Inr () else Inl Require_failed)"

definition ISC_INSIST :: "bool \<Rightarrow> halt + unit" where
  "ISC_INSIST c = (if c then Inr () else Inl Insist_failed)"

definition ISC_ERROR_RUNTIMECHECK :: "bool \<Rightarrow> halt + unit" where
  "ISC_ERROR_RUNTIMECHECK c = (if c then Inr () else Inl Runtime_check_failed)"

section \<open>Mutexes\<close>

datatype isc_mutex = Free | Held

datatype isc_result = ISC_R_SUCCESS | ISC_R_UNEXPECTED

text \<open>
  Modelled from the spec: \<^verbatim>\<open>isc/mutex.h\<close> and the \<^verbatim>\<open>LOCK\<close>/\<^verbatim>\<open>UNLOCK\<close> macros are
  not among the sources; the spec only names "a lower-level mutex primitive". A mutex
  is free or held. Locking a free mutex takes it, locking a held one waits; unlocking a
  held mutex frees it, and unlocking a free one or destroying a held one reports a
  failure, which the checking macros turn into a fault.
\<close>

definition isc_mutex_init :: "isc_mutex \<Rightarrow> isc_result \<times> isc_mutex" where
  "isc_mutex_init m = (ISC_R_SUCCESS, Free)"

definition isc_mutex_lock :: "isc_mutex \<Rightarrow> halt + (isc_result \<times> isc_mutex)" where
  "isc_mutex_lock m = (if m = Held then Inl Blocked else Inr (ISC_R_SUCCESS, Held))"

definition isc_mutex_unlock :: "isc_mutex \<Rightarrow> isc_result \<times> isc_mutex" where
  "isc_mutex_unlock m = (if m = Held then (ISC_R_SUCCESS, Free) else (ISC_R_UNEXPECTED, m))"

definition isc_mutex_destroy :: "isc_mutex \<Rightarrow> isc_result" where
  "isc_mutex_destroy m = (if m = Free then ISC_R_SUCCESS else ISC_R_UNEXPECTED)"

definition LOCK :: "isc_mutex \<Rightarrow> halt + isc_mutex" where
  "LOCK m = andthen (isc_mutex_lock m) (\<lambda>(result, m').
     andthen (ISC_ERROR_RUNTIMECHECK (result = ISC_R_SUCCESS)) (\<lambda>_. Inr m'))"

definition UNLOCK :: "isc_mutex \<Rightarrow> halt + isc_mutex" where
  "UNLOCK m = (let (result, m') = isc_mutex_unlock m in
     andthen (ISC_ERROR_RUNTIMECHECK (result = ISC_R_SUCCESS)) (\<lambda>_. Inr m'))"

section \<open>The reference counter of \<^verbatim>\<open>isc/refcount.h\<close>\<close>

text \<open>
  \<^verbatim>\<open>int32_t\<close>, \<^verbatim>\<open>int\<close> and \<^verbatim>\<open>unsigned int\<close> are 32 bits wide on the target and are
  all \<open>32 word\<close> here: the casts between them keep the bits, \<open>+\<close> and \<open>-\<close> wrap
  around as the atomic primitives do, and \<^verbatim>\<open>prev > 0\<close> on the signed type is \<open>0 <s prev\<close>.

  The output parameter \<^verbatim>\<open>tp\<close> is \<open>None\<close> for a NULL pointer and \<open>Some v\<close> for a
  pointer to a cell holding \<open>v\<close>; every operation returns the cell as it leaves it.
\<close>

type_synonym target = "32 word option"

definition store_target :: "target \<Rightarrow> 32 word \<Rightarrow> target" where
  "store_target tp v = (case tp of None \<Rightarrow> None | Some old \<Rightarrow> Some v)"

subsection \<open>With atomic operations (\<^verbatim>\<open>ISC_REFCOUNT_HAVEATOMIC\<close>)\<close>

record isc_refcount =
  refs :: "32 word"

text \<open>
  \<^verbatim>\<open>atomic_fetch_add_explicit\<close> and \<^verbatim>\<open>atomic_fetch_sub_explicit\<close> return the value
  the counter had and store the sum or difference. The variant without
  \<^verbatim>\<open>stdatomic.h\<close> is the same text with \<^verbatim>\<open>isc_atomic_xadd(p, 1)\<close> and
  \<^verbatim>\<open>isc_atomic_xadd(p, -1)\<close> in their place.
\<close>

definition atomic_fetch_add :: "isc_refcount \<Rightarrow> 32 word \<Rightarrow> 32 word \<times> isc_refcount" where
  "atomic_fetch_add rp d = (refs rp, rp\<lparr>refs := refs rp + d\<rparr>)"

definition atomic_fetch_sub :: "isc_refcount \<Rightarrow> 32 word \<Rightarrow> 32 word \<times> isc_refcount" where
  "atomic_fetch_sub rp d = (refs rp, rp\<lparr>refs := refs rp - d\<rparr>)"

text \<open>
  Modelled from the spec: \<^verbatim>\<open>isc_refcount_init\<close> is only declared in the header. The
  spec has "\<open>init(ref, n)\<close>: sets count to \<open>n\<close>".
\<close>

definition isc_refcount_init :: "isc_refcount \<Rightarrow> 32 word \<Rightarrow> isc_refcount" where
  "isc_refcount_init ref n = ref\<lparr>refs := n\<rparr>"

definition isc_refcount_current :: "isc_refcount \<Rightarrow> 32 word" where
  "isc_refcount_current rp = refs rp"

definition isc_refcount_destroy :: "isc_refcount \<Rightarrow> halt + unit" where
  "isc_refcount_destroy rp = ISC_REQUIRE (isc_refcount_current rp = 0)"

definition isc_refcount_increment0 :: "isc_refcount \<Rightarrow> target \<Rightarrow> halt + (isc_refcount \<times> target)" where
  "isc_refcount_increment0 rp tp =
     (let (prev, rp') = atomic_fetch_add rp 1
      in Inr (rp', store_target tp (prev + 1)))"

definition isc_refcount_increment :: "isc_refcount \<Rightarrow> target \<Rightarrow> halt + (isc_refcount \<times> target)" where
  "isc_refcount_increment rp tp =
     (let (prev, rp') = atomic_fetch_add rp 1
      in andthen (ISC_REQUIRE (0 <s prev)) (\<lambda>_.
         Inr (rp', store_target tp (prev + 1))))"

definition isc_refcount_decrement :: "isc_refcount \<Rightarrow> target \<Rightarrow> halt + (isc_refcount \<times> target)" where
  "isc_refcount_decrement rp tp =
     (let (prev, rp') = atomic_fetch_sub rp 1
      in andthen (ISC_REQUIRE (0 <s prev)) (\<lambda>_.
         Inr (rp', store_target tp (prev - 1))))"

subsection \<open>With a mutex (threads, no atomic operations)\<close>

record isc_refcount_mx =
  mx_refs :: "32 word"
  lock :: isc_mutex

text \<open>
  Modelled from the spec: \<^verbatim>\<open>isc_refcount_init\<close> is only declared in the header. The
  spec has "sets count to \<open>n\<close>" and that the mutex of this variant is created at
  \<open>init\<close> time.
\<close>

definition isc_refcount_init_mx :: "isc_refcount_mx \<Rightarrow> 32 word \<Rightarrow> isc_refcount_mx" where
  "isc_refcount_init_mx ref n = ref\<lparr>mx_refs := n, lock := snd (isc_mutex_init (lock ref))\<rparr>"

definition isc_refcount_destroy_mx :: "isc_refcount_mx \<Rightarrow> halt + unit" where
  "isc_refcount_destroy_mx rp =
     andthen (ISC_REQUIRE (mx_refs rp = 0)) (\<lambda>_.
       let result = isc_mutex_destroy (lock rp)
       in ISC_ERROR_RUNTIMECHECK (result = ISC_R_SUCCESS))"

definition isc_refcount_increment0_mx ::
  "isc_refcount_mx \<Rightarrow> target \<Rightarrow> halt + (isc_refcount_mx \<times> target)" where
  "isc_refcount_increment0_mx rp tp =
     andthen (isc_mutex_lock (lock rp)) (\<lambda>(result, m).
     andthen (ISC_ERROR_RUNTIMECHECK (result = ISC_R_SUCCESS)) (\<lambda>_.
       let rp1 = rp\<lparr>lock := m\<rparr>;
           rp2 = rp1\<lparr>mx_refs := mx_refs rp1 + 1\<rparr>;
           tp' = store_target tp (mx_refs rp2);
           (result, m') = isc_mutex_unlock (lock rp2)
       in andthen (ISC_ERROR_RUNTIMECHECK (result = ISC_R_SUCCESS)) (\<lambda>_.
            Inr (rp2\<lparr>lock := m'\<rparr>, tp'))))"

definition isc_refcount_increment_mx ::
  "isc_refcount_mx \<Rightarrow> target \<Rightarrow> halt + (isc_refcount_mx \<times> target)" where
  "isc_refcount_increment_mx rp tp =
     andthen (isc_mutex_lock (lock rp)) (\<lambda>(result, m).
     andthen (ISC_ERROR_RUNTIMECHECK (result = ISC_R_SUCCESS)) (\<lambda>_.
       let rp1 = rp\<lparr>lock := m\<rparr>
       in andthen (ISC_REQUIRE (0 <s mx_refs rp1)) (\<lambda>_.
         let rp2 = rp1\<lparr>mx_refs := mx_refs rp1 + 1\<rparr>;
             tp' = store_target tp (mx_refs rp2);
             (result, m') = isc_mutex_unlock (lock rp2)
         in andthen (ISC_ERROR_RUNTIMECHECK (result = ISC_R_SUCCESS)) (\<lambda>_.
              Inr (rp2\<lparr>lock := m'\<rparr>, tp')))))"

definition isc_refcount_decrement_mx ::
  "isc_refcount_mx \<Rightarrow> target \<Rightarrow> halt + (isc_refcount_mx \<times> target)" where
  "isc_refcount_decrement_mx rp tp =
     andthen (isc_mutex_lock (lock rp)) (\<lambda>(result, m).
     andthen (ISC_ERROR_RUNTIMECHECK (result = ISC_R_SUCCESS)) (\<lambda>_.
       let rp1 = rp\<lparr>lock := m\<rparr>
       in andthen (ISC_REQUIRE (0 <s mx_refs rp1)) (\<lambda>_.
         let rp2 = rp1\<lparr>mx_refs := mx_refs rp1 - 1\<rparr>;
             tp' = store_target tp (mx_refs rp2);
             (result, m') = isc_mutex_unlock (lock rp2)
         in andthen (ISC_ERROR_RUNTIMECHECK (result = ISC_R_SUCCESS)) (\<lambda>_.
              Inr (rp2\<lparr>lock := m'\<rparr>, tp')))))"

subsection \<open>Without threads\<close>

record isc_refcount_nt =
  nt_refs :: "32 word"

text \<open>
  Modelled from the spec: \<^verbatim>\<open>isc_refcount_init\<close> is only declared in the header. The
  spec has "sets count to \<open>n\<close>".
\<close>

definition isc_refcount_init_nt :: "isc_refcount_nt \<Rightarrow> 32 word \<Rightarrow> isc_refcount_nt" where
  "isc_refcount_init_nt ref n = ref\<lparr>nt_refs := n\<rparr>"

definition isc_refcount_destroy_nt :: "isc_refcount_nt \<Rightarrow> halt + unit" where
  "isc_refcount_destroy_nt rp = ISC_REQUIRE (nt_refs rp = 0)"

definition isc_refcount_current_nt :: "isc_refcount_nt \<Rightarrow> 32 word" where
  "isc_refcount_current_nt rp = nt_refs rp"

definition isc_refcount_increment0_nt ::
  "isc_refcount_nt \<Rightarrow> target \<Rightarrow> halt + (isc_refcount_nt \<times> target)" where
  "isc_refcount_increment0_nt rp tp =
     (let rp' = rp\<lparr>nt_refs := nt_refs rp + 1\<rparr>;
          n = nt_refs rp'
      in Inr (rp', store_target tp n))"

definition isc_refcount_increment_nt ::
  "isc_refcount_nt \<Rightarrow> target \<Rightarrow> halt + (isc_refcount_nt \<times> target)" where
  "isc_refcount_increment_nt rp tp =
     andthen (ISC_REQUIRE (0 <s nt_refs rp)) (\<lambda>_.
       let rp' = rp\<lparr>nt_refs := nt_refs rp + 1\<rparr>;
           n = nt_refs rp'
       in Inr (rp', store_target tp n))"

definition isc_refcount_decrement_nt ::
  "isc_refcount_nt \<Rightarrow> target \<Rightarrow> halt + (isc_refcount_nt \<times> target)" where
  "isc_refcount_decrement_nt rp tp =
     andthen (ISC_REQUIRE (0 <s nt_refs rp)) (\<lambda>_.
       let rp' = rp\<lparr>nt_refs := nt_refs rp - 1\<rparr>;
           n = nt_refs rp'
       in Inr (rp', store_target tp n))"

section \<open>The two-lock queue of \<^verbatim>\<open>isc/queue.h\<close>\<close>

text \<open>
  A pointer to an element is \<open>NULL\<close> ("end of list"), the marker \<^verbatim>\<open>(void *)(-1)\<close>
  ("not linked"), or the address of an element. The macros take the name of the link
  member as a parameter; the memory of all elements is the function \<open>link\<close> from
  addresses to that member.
\<close>

datatype ptr = NULL | NOT_LINKED | Elt nat

record qlink =
  prev :: ptr
  "next" :: ptr

record queue_state =
  head :: ptr
  tail :: ptr
  headlock :: isc_mutex
  taillock :: isc_mutex
  link :: "nat \<Rightarrow> qlink"

text \<open>
  \<^verbatim>\<open>ISC_QLINK_INSIST(x)\<close> is \<^verbatim>\<open>ISC_INSIST(x)\<close> when the header is compiled with
  \<^verbatim>\<open>ISC_QUEUE_CHECKINIT\<close> defined and \<^verbatim>\<open>(void)0\<close> otherwise. The flag is the first
  argument of every macro that uses it.
\<close>

definition ISC_QLINK_INSIST :: "bool \<Rightarrow> bool \<Rightarrow> halt + unit" where
  "ISC_QLINK_INSIST checkinit x = (if checkinit then ISC_INSIST x else Inr ())"

text \<open>Writing and reading the link member of the element at an address.\<close>

definition put_prev :: "nat \<Rightarrow> ptr \<Rightarrow> queue_state \<Rightarrow> queue_state" where
  "put_prev a v s = s\<lparr>link := (link s)(a := (link s a)\<lparr>prev := v\<rparr>)\<rparr>"

definition put_next :: "nat \<Rightarrow> ptr \<Rightarrow> queue_state \<Rightarrow> queue_state" where
  "put_next a v s = s\<lparr>link := (link s)(a := (link s a)\<lparr>next := v\<rparr>)\<rparr>"

text \<open>
  The same through a pointer variable. The code compares such a pointer with \<open>NULL\<close>
  only, so the marker can reach a dereference; that access is outside the memory of
  the program and stops the operation.
\<close>

definition get_next :: "ptr \<Rightarrow> queue_state \<Rightarrow> halt + ptr" where
  "get_next p s = (case p of Elt a \<Rightarrow> Inr (next (link s a)) | _ \<Rightarrow> Inl Bad_pointer)"

definition set_prev :: "ptr \<Rightarrow> ptr \<Rightarrow> queue_state \<Rightarrow> halt + queue_state" where
  "set_prev p v s = (case p of Elt a \<Rightarrow> Inr (put_prev a v s) | _ \<Rightarrow> Inl Bad_pointer)"

definition set_next :: "ptr \<Rightarrow> ptr \<Rightarrow> queue_state \<Rightarrow> halt + queue_state" where
  "set_next p v s = (case p of Elt a \<Rightarrow> Inr (put_next a v s) | _ \<Rightarrow> Inl Bad_pointer)"

definition lock_head :: "queue_state \<Rightarrow> halt + queue_state" where
  "lock_head s = andthen (LOCK (headlock s)) (\<lambda>m. Inr (s\<lparr>headlock := m\<rparr>))"

definition unlock_head :: "queue_state \<Rightarrow> halt + queue_state" where
  "unlock_head s = andthen (UNLOCK (headlock s)) (\<lambda>m. Inr (s\<lparr>headlock := m\<rparr>))"

definition lock_tail :: "queue_state \<Rightarrow> halt + queue_state" where
  "lock_tail s = andthen (LOCK (taillock s)) (\<lambda>m. Inr (s\<lparr>taillock := m\<rparr>))"

definition unlock_tail :: "queue_state \<Rightarrow> halt + queue_state" where
  "unlock_tail s = andthen (UNLOCK (taillock s)) (\<lambda>m. Inr (s\<lparr>taillock := m\<rparr>))"

subsection \<open>The macros\<close>

definition ISC_QLINK_INIT :: "nat \<Rightarrow> queue_state \<Rightarrow> queue_state" where
  "ISC_QLINK_INIT elt s = put_next elt NOT_LINKED (put_prev elt NOT_LINKED s)"

definition ISC_QLINK_LINKED :: "queue_state \<Rightarrow> nat \<Rightarrow> bool" where
  "ISC_QLINK_LINKED s elt = (next (link s elt) \<noteq> NOT_LINKED)"

definition ISC_QUEUE_INIT :: "queue_state \<Rightarrow> queue_state" where
  "ISC_QUEUE_INIT s =
     (let s = s\<lparr>taillock := snd (isc_mutex_init (taillock s))\<rparr>;
          s = s\<lparr>headlock := snd (isc_mutex_init (headlock s))\<rparr>;
          s = s\<lparr>head := NULL\<rparr>
      in s\<lparr>tail := head s\<rparr>)"

definition ISC_QUEUE_EMPTY :: "queue_state \<Rightarrow> bool" where
  "ISC_QUEUE_EMPTY s = (head s = NULL)"

definition ISC_QUEUE_PUSH :: "bool \<Rightarrow> nat \<Rightarrow> queue_state \<Rightarrow> halt + queue_state" where
  "ISC_QUEUE_PUSH checkinit elt s =
     andthen (ISC_QLINK_INSIST checkinit (\<not> ISC_QLINK_LINKED s elt)) (\<lambda>_.
     andthen (lock_tail s) (\<lambda>s.
     andthen (if tail s = NULL
              then andthen (unlock_tail s) (\<lambda>s.
                   andthen (lock_head s) (\<lambda>s.
                   andthen (lock_tail s) (\<lambda>s. Inr (True, s))))
              else Inr (False, s)) (\<lambda>(headlocked, s).
     let s = put_prev elt (tail s) s;
         s = put_next elt NULL s
     in
     andthen (if tail s \<noteq> NULL then set_next (tail s) (Elt elt) s else Inr s) (\<lambda>s.
     let s = s\<lparr>tail := Elt elt\<rparr> in
     andthen (unlock_tail s) (\<lambda>s.
     if headlocked
     then unlock_head (if head s = NULL then s\<lparr>head := Elt elt\<rparr> else s)
     else Inr s)))))"

text \<open>
  The \<^verbatim>\<open>while\<close> of \<^verbatim>\<open>ISC_QUEUE_POP\<close> leaves through \<^verbatim>\<open>break\<close> in its first round
  on both paths, so it is a conditional. \<open>advance\<close> is its last two statements.
\<close>

definition advance :: "ptr \<Rightarrow> queue_state \<Rightarrow> halt + queue_state" where
  "advance ret s =
     andthen (get_next ret s) (\<lambda>n.
     let s = s\<lparr>head := n\<rparr>
     in set_prev (head s) NULL s)"

definition ISC_QUEUE_POP :: "queue_state \<Rightarrow> halt + (ptr \<times> queue_state)" where
  "ISC_QUEUE_POP s =
     andthen (lock_head s) (\<lambda>s.
     let ret = head s in
     andthen (if ret \<noteq> NULL
              then andthen (get_next ret s) (\<lambda>n.
                   if n = NULL
                   then andthen (lock_tail s) (\<lambda>s.
                        andthen (get_next ret s) (\<lambda>n.
                        if n = NULL
                        then unlock_tail (s\<lparr>tail := NULL, head := NULL\<rparr>)
                        else andthen (unlock_tail s) (advance ret)))
                   else advance ret s)
              else Inr s) (\<lambda>s.
     andthen (unlock_head s) (\<lambda>s.
     andthen (if ret \<noteq> NULL
              then andthen (set_prev ret NOT_LINKED s) (set_next ret NOT_LINKED)
              else Inr s) (\<lambda>s.
     Inr (ret, s)))))"

text \<open>The statements between the locks, shared by the two unlinking macros.\<close>

definition unlink_body :: "nat \<Rightarrow> queue_state \<Rightarrow> halt + queue_state" where
  "unlink_body elt s =
     andthen (if prev (link s elt) = NULL
              then Inr (s\<lparr>head := next (link s elt)\<rparr>)
              else set_next (prev (link s elt)) (next (link s elt)) s) (\<lambda>s.
     if next (link s elt) = NULL
     then Inr (s\<lparr>tail := prev (link s elt)\<rparr>)
     else set_prev (next (link s elt)) (prev (link s elt)) s)"

definition ISC_QUEUE_UNLINK :: "bool \<Rightarrow> nat \<Rightarrow> queue_state \<Rightarrow> halt + queue_state" where
  "ISC_QUEUE_UNLINK checkinit elt s =
     andthen (ISC_QLINK_INSIST checkinit (ISC_QLINK_LINKED s elt)) (\<lambda>_.
     andthen (lock_head s) (\<lambda>s.
     andthen (lock_tail s) (\<lambda>s.
     andthen (unlink_body elt s) (\<lambda>s.
     andthen (unlock_tail s) (\<lambda>s.
     andthen (unlock_head s) (\<lambda>s.
     Inr (put_next elt NOT_LINKED (put_prev elt NOT_LINKED s))))))))"

definition ISC_QUEUE_UNLINKIFLINKED :: "nat \<Rightarrow> queue_state \<Rightarrow> halt + queue_state" where
  "ISC_QUEUE_UNLINKIFLINKED elt s =
     andthen (lock_head s) (\<lambda>s.
     andthen (lock_tail s) (\<lambda>s.
     andthen (if ISC_QLINK_LINKED s elt then unlink_body elt s else Inr s) (\<lambda>s.
     andthen (unlock_tail s) (\<lambda>s.
     andthen (unlock_head s) (\<lambda>s.
     Inr (put_next elt NOT_LINKED (put_prev elt NOT_LINKED s)))))))"

subsection \<open>The list a queue holds\<close>

text \<open>
  \<open>dll h p xs n\<close>: the elements \<open>xs\<close> are chained to each other in both directions,
  the first one pointing back to \<open>p\<close> and the last one pointing on to \<open>n\<close>.
\<close>

definition first :: "nat list \<Rightarrow> ptr \<Rightarrow> ptr" where
  "first xs n = (case xs of [] \<Rightarrow> n | x # _ \<Rightarrow> Elt x)"

definition final :: "nat list \<Rightarrow> ptr \<Rightarrow> ptr" where
  "final xs p = (if xs = [] then p else Elt (last xs))"

fun dll :: "(nat \<Rightarrow> qlink) \<Rightarrow> ptr \<Rightarrow> nat list \<Rightarrow> ptr \<Rightarrow> bool" where
  "dll h p [] n = True"
| "dll h p (x # xs) n = (prev (h x) = p \<and> next (h x) = first xs n \<and> dll h (Elt x) xs n)"

text \<open>
  \<open>is_queue s xs\<close>: the queue of state \<open>s\<close> holds exactly the elements \<open>xs\<close>, from
  head to tail. \<open>quiescent s\<close>: no operation is under way, both locks are free.
\<close>

definition is_queue :: "queue_state \<Rightarrow> nat list \<Rightarrow> bool" where
  "is_queue s xs =
     (distinct xs \<and> head s = first xs NULL \<and> tail s = final xs NULL \<and>
      dll (link s) NULL xs NULL)"

definition quiescent :: "queue_state \<Rightarrow> bool" where
  "quiescent s = (headlock s = Free \<and> taillock s = Free)"

text \<open>
  The invariant as the data model words it: the queue is empty exactly when head and
  tail are both \<open>NULL\<close>, and in a queue that is not empty the head element has no
  predecessor and the tail element has no successor.
\<close>

definition queue_invariant :: "queue_state \<Rightarrow> bool" where
  "queue_invariant s =
     ((ISC_QUEUE_EMPTY s \<longleftrightarrow> head s = NULL \<and> tail s = NULL) \<and>
      (head s = NULL \<longleftrightarrow> tail s = NULL) \<and>
      (\<not> ISC_QUEUE_EMPTY s \<longrightarrow>
         (case head s of Elt a \<Rightarrow> prev (link s a) = NULL | _ \<Rightarrow> False) \<and>
         (case tail s of Elt b \<Rightarrow> next (link s b) = NULL | _ \<Rightarrow> False)))"

subsection \<open>Sequences of pushes and pops\<close>

datatype qop = Push nat | Pop

text \<open>
  \<open>run\<close> executes a sequence of operations on the state, one after the other, and
  collects what the pops return.
\<close>

fun run :: "bool \<Rightarrow> qop list \<Rightarrow> queue_state \<Rightarrow> halt + (ptr list \<times> queue_state)" where
  "run checkinit [] s = Inr ([], s)"
| "run checkinit (Push elt # ops) s =
     andthen (ISC_QUEUE_PUSH checkinit elt s) (run checkinit ops)"
| "run checkinit (Pop # ops) s =
     andthen (ISC_QUEUE_POP s) (\<lambda>(ret, s).
     andthen (run checkinit ops s) (\<lambda>(rets, s). Inr (ret # rets, s)))"

text \<open>
  The first-in first-out discipline in the spec's words, on a list of elements in the
  order they were pushed: a push appends at the tail, a pop removes the head, and a
  pop on the empty list answers "empty" (\<open>NULL\<close>). \<open>fifo ops q\<close> is what the pops
  answer and the list that is left.
\<close>

fun fifo :: "qop list \<Rightarrow> nat list \<Rightarrow> ptr list \<times> nat list" where
  "fifo [] q = ([], q)"
| "fifo (Push elt # ops) q = fifo ops (q @ [elt])"
| "fifo (Pop # ops) [] = (let (rets, q') = fifo ops [] in (NULL # rets, q'))"
| "fifo (Pop # ops) (x # q) = (let (rets, q') = fifo ops q in (Elt x # rets, q'))"

fun pushed :: "qop list \<Rightarrow> nat list" where
  "pushed [] = []"
| "pushed (Push elt # ops) = elt # pushed ops"
| "pushed (Pop # ops) = pushed ops"

fun popped :: "ptr list \<Rightarrow> nat list" where
  "popped [] = []"
| "popped (Elt a # rets) = a # popped rets"
| "popped (p # rets) = popped rets"

text \<open>
  The callers' side of the requirement of a push, that the element is not linked:
  \<open>pool\<close> is a set of elements known to be not linked; a push takes its element from
  the pool, and a popped element returns to it.
\<close>

fun admissible :: "nat set \<Rightarrow> qop list \<Rightarrow> nat list \<Rightarrow> bool" where
  "admissible pool [] q = True"
| "admissible pool (Push elt # ops) q =
     (elt \<in> pool \<and> admissible (pool - {elt}) ops (q @ [elt]))"
| "admissible pool (Pop # ops) [] = admissible pool ops []"
| "admissible pool (Pop # ops) (x # q) = admissible (insert x pool) ops q"

subsection \<open>Two concrete states\<close>

text \<open>
  \<open>queue0\<close>: an initialised, empty queue, every element initialised by
  \<^verbatim>\<open>ISC_QLINK_INIT\<close>. \<open>queue1\<close>: the same with element 1 as its only element.
\<close>

definition queue0 :: queue_state where
  "queue0 = \<lparr>head = NULL, tail = NULL, headlock = Free, taillock = Free,
              link = (\<lambda>a. \<lparr>prev = NOT_LINKED, next = NOT_LINKED\<rparr>)\<rparr>"

definition queue1 :: queue_state where
  "queue1 = \<lparr>head = Elt 1, tail = Elt 1, headlock = Free, taillock = Free,
              link = (\<lambda>a. if a = 1 then \<lparr>prev = NULL, next = NULL\<rparr>
                           else \<lparr>prev = NOT_LINKED, next = NOT_LINKED\<rparr>)\<rparr>"

text \<open>
  \<open>queue_other\<close>: an initialised, empty queue beside the elements 2 and 3, which are
  linked to each other the way the two members of another queue are.
\<close>

definition queue_other :: queue_state where
  "queue_other = \<lparr>head = NULL, tail = NULL, headlock = Free, taillock = Free,
     link = (\<lambda>a. if a = 2 then \<lparr>prev = NULL, next = Elt 3\<rparr>
                  else if a = 3 then \<lparr>prev = Elt 2, next = NULL\<rparr>
                  else \<lparr>prev = NOT_LINKED, next = NOT_LINKED\<rparr>)\<rparr>"

section \<open>Properties of the reference counter\<close>

lemmas refcount_defs =
  isc_refcount_init_def isc_refcount_current_def isc_refcount_destroy_def
  isc_refcount_increment0_def isc_refcount_increment_def isc_refcount_decrement_def
  atomic_fetch_add_def atomic_fetch_sub_def
  isc_refcount_init_mx_def isc_refcount_destroy_mx_def
  isc_refcount_increment0_mx_def isc_refcount_increment_mx_def isc_refcount_decrement_mx_def
  isc_refcount_init_nt_def isc_refcount_destroy_nt_def isc_refcount_current_nt_def
  isc_refcount_increment0_nt_def isc_refcount_increment_nt_def isc_refcount_decrement_nt_def
  isc_mutex_init_def isc_mutex_lock_def isc_mutex_unlock_def isc_mutex_destroy_def
  ISC_REQUIRE_def ISC_ERROR_RUNTIMECHECK_def andthen_def store_target_def Let_def

lemma store_target_map: "store_target tp v = map_option (\<lambda>old. v) tp"
  by (simp add: store_target_def split: option.splits)

lemma sint_succ:
  assumes "sint (x :: 32 word) \<noteq> 2147483647"
  shows "sint (x + 1) = sint x + 1"
proof -
  have lo: "- (2 ^ 31) \<le> sint x" using sint_ge [of x] by simp
  have hi: "sint x < 2 ^ 31" using sint_lt [of x] by simp
  have "sint (x + 1) = signed_take_bit 31 (sint x + 1)"
    using sint_word_add [of x 1] by simp
  also have "\<dots> = sint x + 1"
    using lo hi assms by (intro signed_take_bit_int_eq_self) simp_all
  finally show ?thesis .
qed

lemma sint_pred:
  assumes "0 <s (x :: 32 word)"
  shows "sint (x - 1) = sint x - 1"
proof -
  have pos: "0 < sint x" using assms by (simp add: word_sless_alt)
  have hi: "sint x < 2 ^ 31" using sint_lt [of x] by simp
  have "sint (x - 1) = signed_take_bit 31 (sint x - 1)"
    using sint_word_ariths(2) [of x 1] by simp
  also have "\<dots> = sint x - 1"
    using pos hi by (intro signed_take_bit_int_eq_self) simp_all
  finally show ?thesis .
qed

text \<open>What each operation returns, for every counter.\<close>

lemma increment0_eq:
  "isc_refcount_increment0 rp tp =
     Inr (rp\<lparr>refs := refs rp + 1\<rparr>, map_option (\<lambda>old. refs rp + 1) tp)"
  by (simp add: refcount_defs split: option.splits)

lemma increment_eq:
  "isc_refcount_increment rp tp =
     (if 0 <s refs rp
      then Inr (rp\<lparr>refs := refs rp + 1\<rparr>, map_option (\<lambda>old. refs rp + 1) tp)
      else Inl Require_failed)"
  by (simp add: refcount_defs split: option.splits)

lemma decrement_eq:
  "isc_refcount_decrement rp tp =
     (if 0 <s refs rp
      then Inr (rp\<lparr>refs := refs rp - 1\<rparr>, map_option (\<lambda>old. refs rp - 1) tp)
      else Inl Require_failed)"
  by (simp add: refcount_defs split: option.splits)

lemma destroy_eq:
  "isc_refcount_destroy rp = (if refs rp = 0 then Inr () else Inl Require_failed)"
  by (simp add: refcount_defs)

lemma increment0_mx_eq:
  "isc_refcount_increment0_mx rp tp =
     (if lock rp = Held then Inl Blocked
      else Inr (rp\<lparr>mx_refs := mx_refs rp + 1\<rparr>, map_option (\<lambda>old. mx_refs rp + 1) tp))"
  by (cases "lock rp") (simp_all add: refcount_defs split: option.splits)

lemma increment_mx_eq:
  "isc_refcount_increment_mx rp tp =
     (if lock rp = Held then Inl Blocked
      else if 0 <s mx_refs rp
      then Inr (rp\<lparr>mx_refs := mx_refs rp + 1\<rparr>, map_option (\<lambda>old. mx_refs rp + 1) tp)
      else Inl Require_failed)"
  by (cases "lock rp") (simp_all add: refcount_defs split: option.splits)

lemma decrement_mx_eq:
  "isc_refcount_decrement_mx rp tp =
     (if lock rp = Held then Inl Blocked
      else if 0 <s mx_refs rp
      then Inr (rp\<lparr>mx_refs := mx_refs rp - 1\<rparr>, map_option (\<lambda>old. mx_refs rp - 1) tp)
      else Inl Require_failed)"
  by (cases "lock rp") (simp_all add: refcount_defs split: option.splits)

lemma destroy_mx_eq:
  "isc_refcount_destroy_mx rp =
     (if mx_refs rp \<noteq> 0 then Inl Require_failed
      else if lock rp = Held then Inl Runtime_check_failed
      else Inr ())"
  by (cases "lock rp") (simp_all add: refcount_defs)

lemma increment0_nt_eq:
  "isc_refcount_increment0_nt rp tp =
     Inr (rp\<lparr>nt_refs := nt_refs rp + 1\<rparr>, map_option (\<lambda>old. nt_refs rp + 1) tp)"
  by (simp add: refcount_defs split: option.splits)

lemma increment_nt_eq:
  "isc_refcount_increment_nt rp tp =
     (if 0 <s nt_refs rp
      then Inr (rp\<lparr>nt_refs := nt_refs rp + 1\<rparr>, map_option (\<lambda>old. nt_refs rp + 1) tp)
      else Inl Require_failed)"
  by (simp add: refcount_defs split: option.splits)

lemma decrement_nt_eq:
  "isc_refcount_decrement_nt rp tp =
     (if 0 <s nt_refs rp
      then Inr (rp\<lparr>nt_refs := nt_refs rp - 1\<rparr>, map_option (\<lambda>old. nt_refs rp - 1) tp)
      else Inl Require_failed)"
  by (simp add: refcount_defs split: option.splits)

lemma destroy_nt_eq:
  "isc_refcount_destroy_nt rp = (if nt_refs rp = 0 then Inr () else Inl Require_failed)"
  by (simp add: refcount_defs)

lemmas refcount_eqs =
  increment0_eq increment_eq decrement_eq destroy_eq
  increment0_mx_eq increment_mx_eq decrement_mx_eq destroy_mx_eq
  increment0_nt_eq increment_nt_eq decrement_nt_eq destroy_nt_eq

text \<open>
  C1. On a counter fresh from \<open>init(ref, 0)\<close>, \<open>increment0\<close> returns without a fault,
  the count is 1, and 1 is written to the target when the target is not NULL (a NULL
  target stays NULL). \<open>increment\<close> on the same fresh counter stops in the fault of
  \<^verbatim>\<open>ISC_REQUIRE\<close>. This holds in each of the three builds of the header: with atomic
  operations, with a mutex, without threads.
\<close>

theorem fresh_counter_increment0_increment:
  "isc_refcount_increment0 (isc_refcount_init ref 0) None = Inr (ref\<lparr>refs := 1\<rparr>, None) \<and>
   isc_refcount_increment0 (isc_refcount_init ref 0) (Some v) = Inr (ref\<lparr>refs := 1\<rparr>, Some 1) \<and>
   isc_refcount_increment (isc_refcount_init ref 0) tp = Inl Require_failed \<and>
   isc_refcount_increment0_mx (isc_refcount_init_mx mref 0) None
     = Inr (mref\<lparr>mx_refs := 1, lock := Free\<rparr>, None) \<and>
   isc_refcount_increment0_mx (isc_refcount_init_mx mref 0) (Some v)
     = Inr (mref\<lparr>mx_refs := 1, lock := Free\<rparr>, Some 1) \<and>
   isc_refcount_increment_mx (isc_refcount_init_mx mref 0) tp = Inl Require_failed \<and>
   isc_refcount_increment0_nt (isc_refcount_init_nt nref 0) None
     = Inr (nref\<lparr>nt_refs := 1\<rparr>, None) \<and>
   isc_refcount_increment0_nt (isc_refcount_init_nt nref 0) (Some v)
     = Inr (nref\<lparr>nt_refs := 1\<rparr>, Some 1) \<and>
   isc_refcount_increment_nt (isc_refcount_init_nt nref 0) tp = Inl Require_failed \<and>
   is_fault Require_failed"
  by (simp add: refcount_eqs is_fault_def word_sless_alt)
     (simp add: isc_refcount_init_def isc_refcount_init_mx_def isc_refcount_init_nt_def
        isc_mutex_init_def)

theorem fresh_counter_witness:
  "isc_refcount_increment0 (isc_refcount_init \<lparr>refs = 7\<rparr> 0) (Some 9) = Inr (\<lparr>refs = 1\<rparr>, Some 1) \<and>
   isc_refcount_increment (isc_refcount_init \<lparr>refs = 7\<rparr> 0) (Some 9) = Inl Require_failed"
  using fresh_counter_increment0_increment [of "\<lparr>refs = 7\<rparr>" 9 "Some 9"] by simp

text \<open>
  C2. \<open>decrement\<close> on a prior count that is not positive (0 included) stops in the
  fault of \<^verbatim>\<open>ISC_REQUIRE\<close>; on a positive prior count it returns, the count is the
  prior one minus 1 (also as signed integers: there is no wrap-around on this path),
  and that value is written to a target that is not NULL. After a \<open>decrement\<close> from 1
  the count is 0 and \<open>destroy\<close> returns; \<open>destroy\<close> on a count other than 0 stops
  in the fault. The same in the build with a mutex (the mutex being free, as it is
  between operations) and in the build without threads.
\<close>

theorem decrement_then_destroy:
  "(0 <s refs rp \<longrightarrow>
      isc_refcount_decrement rp tp
        = Inr (rp\<lparr>refs := refs rp - 1\<rparr>, map_option (\<lambda>old. refs rp - 1) tp) \<and>
      sint (refs rp - 1) = sint (refs rp) - 1) \<and>
   (\<not> 0 <s refs rp \<longrightarrow> isc_refcount_decrement rp tp = Inl Require_failed) \<and>
   (refs rp = 0 \<longrightarrow> isc_refcount_decrement rp tp = Inl Require_failed) \<and>
   (refs rp = 1 \<longrightarrow>
      andthen (isc_refcount_decrement rp tp) (\<lambda>(rp', tp'). isc_refcount_destroy rp') = Inr ()) \<and>
   (refs rp \<noteq> 0 \<longrightarrow> isc_refcount_destroy rp = Inl Require_failed) \<and>
   (lock mp = Free \<longrightarrow>
      (0 <s mx_refs mp \<longrightarrow>
         isc_refcount_decrement_mx mp tp
           = Inr (mp\<lparr>mx_refs := mx_refs mp - 1\<rparr>, map_option (\<lambda>old. mx_refs mp - 1) tp)) \<and>
      (\<not> 0 <s mx_refs mp \<longrightarrow> isc_refcount_decrement_mx mp tp = Inl Require_failed) \<and>
      (mx_refs mp = 1 \<longrightarrow>
         andthen (isc_refcount_decrement_mx mp tp) (\<lambda>(mp', tp'). isc_refcount_destroy_mx mp')
           = Inr ())) \<and>
   (mx_refs mp \<noteq> 0 \<longrightarrow> isc_refcount_destroy_mx mp = Inl Require_failed) \<and>
   (0 <s nt_refs np \<longrightarrow>
      isc_refcount_decrement_nt np tp
        = Inr (np\<lparr>nt_refs := nt_refs np - 1\<rparr>, map_option (\<lambda>old. nt_refs np - 1) tp)) \<and>
   (\<not> 0 <s nt_refs np \<longrightarrow> isc_refcount_decrement_nt np tp = Inl Require_failed) \<and>
   (nt_refs np = 1 \<longrightarrow>
      andthen (isc_refcount_decrement_nt np tp) (\<lambda>(np', tp'). isc_refcount_destroy_nt np')
        = Inr ()) \<and>
   (nt_refs np \<noteq> 0 \<longrightarrow> isc_refcount_destroy_nt np = Inl Require_failed) \<and>
   is_fault Require_failed"
proof -
  have no_wrap: "0 <s refs rp \<longrightarrow> sint (refs rp - 1) = sint (refs rp) - 1"
    by (simp add: sint_pred)
  have zero: "\<not> 0 <s (0 :: 32 word)" and one: "0 <s (1 :: 32 word)"
    by (simp_all add: word_sless_alt)
  have atomic:
    "isc_refcount_decrement rp tp =
       (if 0 <s refs rp
        then Inr (rp\<lparr>refs := refs rp - 1\<rparr>, map_option (\<lambda>old. refs rp - 1) tp)
        else Inl Require_failed)"
    "isc_refcount_destroy (rp\<lparr>refs := 0\<rparr>) = Inr ()"
    "refs rp \<noteq> 0 \<longrightarrow> isc_refcount_destroy rp = Inl Require_failed"
    by (simp_all add: decrement_eq destroy_eq)
  have mutex:
    "lock mp = Free \<longrightarrow> isc_refcount_decrement_mx mp tp =
       (if 0 <s mx_refs mp
        then Inr (mp\<lparr>mx_refs := mx_refs mp - 1\<rparr>, map_option (\<lambda>old. mx_refs mp - 1) tp)
        else Inl Require_failed)"
    "lock mp = Free \<longrightarrow> isc_refcount_destroy_mx (mp\<lparr>mx_refs := 0\<rparr>) = Inr ()"
    "mx_refs mp \<noteq> 0 \<longrightarrow> isc_refcount_destroy_mx mp = Inl Require_failed"
    by (simp_all add: decrement_mx_eq destroy_mx_eq)
  have nothreads:
    "isc_refcount_decrement_nt np tp =
       (if 0 <s nt_refs np
        then Inr (np\<lparr>nt_refs := nt_refs np - 1\<rparr>, map_option (\<lambda>old. nt_refs np - 1) tp)
        else Inl Require_failed)"
    "isc_refcount_destroy_nt (np\<lparr>nt_refs := 0\<rparr>) = Inr ()"
    "nt_refs np \<noteq> 0 \<longrightarrow> isc_refcount_destroy_nt np = Inl Require_failed"
    by (simp_all add: decrement_nt_eq destroy_nt_eq)
  from no_wrap zero one atomic mutex nothreads show ?thesis
    by (simp add: is_fault_def andthen_def)
qed

theorem decrement_then_destroy_witness:
  "0 <s (1 :: 32 word) \<and> \<not> 0 <s (0 :: 32 word) \<and>
   isc_refcount_decrement \<lparr>refs = 1\<rparr> (Some 9) = Inr (\<lparr>refs = 0\<rparr>, Some 0) \<and>
   isc_refcount_destroy \<lparr>refs = 0\<rparr> = Inr () \<and>
   isc_refcount_decrement \<lparr>refs = 0\<rparr> (Some 9) = Inl Require_failed \<and>
   isc_refcount_destroy \<lparr>refs = 1\<rparr> = Inl Require_failed \<and>
   isc_refcount_decrement_mx \<lparr>mx_refs = 1, lock = Free\<rparr> (Some 9)
     = Inr (\<lparr>mx_refs = 0, lock = Free\<rparr>, Some 0) \<and>
   isc_refcount_destroy_mx \<lparr>mx_refs = 0, lock = Free\<rparr> = Inr () \<and>
   isc_refcount_decrement_mx \<lparr>mx_refs = 0, lock = Free\<rparr> (Some 9) = Inl Require_failed \<and>
   isc_refcount_destroy_mx \<lparr>mx_refs = 1, lock = Free\<rparr> = Inl Require_failed \<and>
   isc_refcount_decrement_nt \<lparr>nt_refs = 1\<rparr> (Some 9) = Inr (\<lparr>nt_refs = 0\<rparr>, Some 0) \<and>
   isc_refcount_destroy_nt \<lparr>nt_refs = 0\<rparr> = Inr () \<and>
   isc_refcount_decrement_nt \<lparr>nt_refs = 0\<rparr> (Some 9) = Inl Require_failed \<and>
   isc_refcount_destroy_nt \<lparr>nt_refs = 1\<rparr> = Inl Require_failed"
  using
    decrement_then_destroy
      [of "\<lparr>refs = 1\<rparr>" "Some 9" "\<lparr>mx_refs = 1, lock = Free\<rparr>" "\<lparr>nt_refs = 1\<rparr>"]
    decrement_then_destroy
      [of "\<lparr>refs = 0\<rparr>" "Some 9" "\<lparr>mx_refs = 0, lock = Free\<rparr>" "\<lparr>nt_refs = 0\<rparr>"]
  by (auto simp: word_sless_alt andthen_def split: sum.splits)

text \<open>
  C10. \<open>increment0\<close> has no check on the prior count: for every prior value, the
  negative ones included, it returns without a fault, the count is the prior one plus
  1 in 32-bit arithmetic (as signed integers too, unless the prior count is the
  largest one), and that value is written to a target that is not NULL. \<open>increment\<close>
  and \<open>decrement\<close> stop in a fault exactly when the prior count is not positive. The
  same in the build with a mutex (the mutex being free) and without threads.
\<close>

theorem increment0_has_no_precondition:
  "isc_refcount_increment0 rp tp
     = Inr (rp\<lparr>refs := refs rp + 1\<rparr>, map_option (\<lambda>old. refs rp + 1) tp) \<and>
   (sint (refs rp) \<noteq> 2147483647 \<longrightarrow> sint (refs rp + 1) = sint (refs rp) + 1) \<and>
   ((\<exists>h. isc_refcount_increment rp tp = Inl h) = (\<not> 0 <s refs rp)) \<and>
   ((\<exists>h. isc_refcount_decrement rp tp = Inl h) = (\<not> 0 <s refs rp)) \<and>
   (lock mp = Free \<longrightarrow>
      isc_refcount_increment0_mx mp tp
        = Inr (mp\<lparr>mx_refs := mx_refs mp + 1\<rparr>, map_option (\<lambda>old. mx_refs mp + 1) tp) \<and>
      ((\<exists>h. isc_refcount_increment_mx mp tp = Inl h) = (\<not> 0 <s mx_refs mp)) \<and>
      ((\<exists>h. isc_refcount_decrement_mx mp tp = Inl h) = (\<not> 0 <s mx_refs mp))) \<and>
   isc_refcount_increment0_nt np tp
     = Inr (np\<lparr>nt_refs := nt_refs np + 1\<rparr>, map_option (\<lambda>old. nt_refs np + 1) tp) \<and>
   ((\<exists>h. isc_refcount_increment_nt np tp = Inl h) = (\<not> 0 <s nt_refs np)) \<and>
   ((\<exists>h. isc_refcount_decrement_nt np tp = Inl h) = (\<not> 0 <s nt_refs np))"
proof -
  have no_wrap: "sint (refs rp) \<noteq> 2147483647 \<longrightarrow> sint (refs rp + 1) = sint (refs rp) + 1"
    by (simp add: sint_succ)
  have atomic:
    "isc_refcount_increment0 rp tp
       = Inr (rp\<lparr>refs := refs rp + 1\<rparr>, map_option (\<lambda>old. refs rp + 1) tp)"
    "(\<exists>h. isc_refcount_increment rp tp = Inl h) = (\<not> 0 <s refs rp)"
    "(\<exists>h. isc_refcount_decrement rp tp = Inl h) = (\<not> 0 <s refs rp)"
    by (simp_all add: increment0_eq increment_eq decrement_eq)
  have mutex:
    "lock mp = Free \<longrightarrow>
       isc_refcount_increment0_mx mp tp
         = Inr (mp\<lparr>mx_refs := mx_refs mp + 1\<rparr>, map_option (\<lambda>old. mx_refs mp + 1) tp)"
    "lock mp = Free \<longrightarrow>
       (\<exists>h. isc_refcount_increment_mx mp tp = Inl h) = (\<not> 0 <s mx_refs mp)"
    "lock mp = Free \<longrightarrow>
       (\<exists>h. isc_refcount_decrement_mx mp tp = Inl h) = (\<not> 0 <s mx_refs mp)"
    by (simp_all add: increment0_mx_eq increment_mx_eq decrement_mx_eq)
  have nothreads:
    "isc_refcount_increment0_nt np tp
       = Inr (np\<lparr>nt_refs := nt_refs np + 1\<rparr>, map_option (\<lambda>old. nt_refs np + 1) tp)"
    "(\<exists>h. isc_refcount_increment_nt np tp = Inl h) = (\<not> 0 <s nt_refs np)"
    "(\<exists>h. isc_refcount_decrement_nt np tp = Inl h) = (\<not> 0 <s nt_refs np)"
    by (simp_all add: increment0_nt_eq increment_nt_eq decrement_nt_eq)
  from no_wrap atomic mutex nothreads show ?thesis
    by simp
qed

theorem increment0_has_no_precondition_witness:
  "isc_refcount_increment0 \<lparr>refs = - 5\<rparr> (Some 9) = Inr (\<lparr>refs = - 4\<rparr>, Some (- 4)) \<and>
   sint (- 5 :: 32 word) \<noteq> 2147483647 \<and> sint (- 5 + 1 :: 32 word) = - 4 \<and>
   (\<exists>h. isc_refcount_increment \<lparr>refs = - 5\<rparr> (Some 9) = Inl h) \<and>
   isc_refcount_increment0_mx \<lparr>mx_refs = - 5, lock = Free\<rparr> (Some 9)
     = Inr (\<lparr>mx_refs = - 4, lock = Free\<rparr>, Some (- 4)) \<and>
   (\<exists>h. isc_refcount_decrement_mx \<lparr>mx_refs = - 5, lock = Free\<rparr> (Some 9) = Inl h) \<and>
   isc_refcount_increment0_nt \<lparr>nt_refs = - 5\<rparr> (Some 9) = Inr (\<lparr>nt_refs = - 4\<rparr>, Some (- 4))"
  using
    increment0_has_no_precondition
      [of "\<lparr>refs = - 5\<rparr>" "Some 9" "\<lparr>mx_refs = - 5, lock = Free\<rparr>" "\<lparr>nt_refs = - 5\<rparr>"]
  by (simp add: word_sless_alt)

section \<open>The list held by a queue: lemmas\<close>

lemma first_simps [simp]: "first [] n = n" "first (x # xs) n = Elt x"
  by (simp_all add: first_def)

lemma final_simps [simp]:
  "final [] p = p" "final (xs @ [x]) p = Elt x" "final (x # xs) p = final xs (Elt x)"
  by (simp_all add: final_def)

lemma first_append: "first (xs @ ys) n = first xs (first ys n)"
  by (cases xs) simp_all

lemma final_append: "final (xs @ ys) p = final ys (final xs p)"
  by (cases ys rule: rev_cases) (simp_all add: final_def)

lemma dll_append:
  "dll h p (xs @ ys) n = (dll h p xs (first ys n) \<and> dll h (final xs p) ys n)"
proof (induction xs arbitrary: p)
  case Nil
  show ?case by simp
next
  case (Cons x xs)
  show ?case
  proof (cases xs)
    case Nil
    then show ?thesis by (cases ys) auto
  next
    case (Cons y zs)
    with Cons.IH [of "Elt x"] show ?thesis by auto
  qed
qed

lemma dll_upd_notin:
  "a \<notin> set xs \<Longrightarrow> dll (h(a := l)) p xs n = dll h p xs n"
  by (induction xs arbitrary: p) auto

lemma dll_linked:
  "dll h p xs NULL \<Longrightarrow> a \<in> set xs \<Longrightarrow> next (h a) \<noteq> NOT_LINKED"
proof (induction xs arbitrary: p)
  case Nil
  then show ?case by simp
next
  case (Cons x xs)
  then show ?case by (cases xs) auto
qed

lemma dll_set_exit:
  "distinct xs \<Longrightarrow> xs \<noteq> [] \<Longrightarrow> dll h p xs n \<Longrightarrow>
   dll (h(last xs := (h (last xs))\<lparr>next := n'\<rparr>)) p xs n'"
proof (induction xs arbitrary: p)
  case Nil
  then show ?case by simp
next
  case (Cons x xs)
  show ?case
  proof (cases xs)
    case Nil
    with Cons.prems show ?thesis by simp
  next
    case (Cons y zs)
    with Cons.prems Cons.IH [of "Elt x"] show ?thesis by auto
  qed
qed

lemma dll_set_entry:
  "distinct xs \<Longrightarrow> xs \<noteq> [] \<Longrightarrow> dll h p xs n \<Longrightarrow>
   dll (h(hd xs := (h (hd xs))\<lparr>prev := p'\<rparr>)) p' xs n"
  by (cases xs) (simp_all add: dll_upd_notin)

lemma is_queue_unlinked_notin:
  "is_queue s xs \<Longrightarrow> \<not> ISC_QLINK_LINKED s e \<Longrightarrow> e \<notin> set xs"
  using dll_linked [of "link s" NULL xs e] by (auto simp: is_queue_def ISC_QLINK_LINKED_def)

lemmas mutex_defs =
  LOCK_def UNLOCK_def isc_mutex_lock_def isc_mutex_unlock_def isc_mutex_init_def
  ISC_ERROR_RUNTIMECHECK_def ISC_INSIST_def ISC_QLINK_INSIST_def andthen_def
  lock_head_def unlock_head_def lock_tail_def unlock_tail_def

lemma lock_head_free [simp]: "headlock s = Free \<Longrightarrow> lock_head s = Inr (s\<lparr>headlock := Held\<rparr>)"
  by (simp add: mutex_defs)
lemma lock_tail_free [simp]: "taillock s = Free \<Longrightarrow> lock_tail s = Inr (s\<lparr>taillock := Held\<rparr>)"
  by (simp add: mutex_defs)
lemma unlock_head_held [simp]: "headlock s = Held \<Longrightarrow> unlock_head s = Inr (s\<lparr>headlock := Free\<rparr>)"
  by (simp add: mutex_defs)
lemma unlock_tail_held [simp]: "taillock s = Held \<Longrightarrow> unlock_tail s = Inr (s\<lparr>taillock := Free\<rparr>)"
  by (simp add: mutex_defs)
lemma andthen_Inr [simp]: "andthen (Inr x) f = f x"
  by (simp add: andthen_def)
lemma andthen_Inl [simp]: "andthen (Inl h) f = Inl h"
  by (simp add: andthen_def)

lemma push_empty:
  assumes "head s = NULL" "tail s = NULL" "quiescent s" "ck \<longrightarrow> \<not> ISC_QLINK_LINKED s e"
  shows "ISC_QUEUE_PUSH ck e s =
     Inr (s\<lparr>head := Elt e, tail := Elt e, link := (link s)(e := \<lparr>prev = NULL, next = NULL\<rparr>)\<rparr>)"
  using assms
  by (cases s) (auto simp: ISC_QUEUE_PUSH_def quiescent_def ISC_QLINK_INSIST_def ISC_INSIST_def put_prev_def put_next_def)

lemma push_nonempty:
  assumes "tail s = Elt t" "quiescent s" "ck \<longrightarrow> \<not> ISC_QLINK_LINKED s e"
  shows "ISC_QUEUE_PUSH ck e s =
     Inr (s\<lparr>tail := Elt e,
            link := (link s)(e := \<lparr>prev = Elt t, next = NULL\<rparr>,
                             t := ((link s)(e := \<lparr>prev = Elt t, next = NULL\<rparr>)) t \<lparr>next := Elt e\<rparr>)\<rparr>)"
  using assms
  by (cases s) (auto simp: ISC_QUEUE_PUSH_def quiescent_def ISC_QLINK_INSIST_def ISC_INSIST_def put_prev_def put_next_def set_next_def)

lemma push_is_queue:
  assumes q: "is_queue s xs" and f: "quiescent s" and u: "\<not> ISC_QLINK_LINKED s e"
  shows "\<exists>s'. ISC_QUEUE_PUSH ck e s = Inr s' \<and> is_queue s' (xs @ [e]) \<and> quiescent s' \<and>
           (\<forall>a. a \<noteq> e \<and> a \<notin> set xs \<longrightarrow> link s' a = link s a)"
proof (cases xs rule: rev_cases)
  case Nil
  with q have "head s = NULL" "tail s = NULL"
    by (simp_all add: is_queue_def)
  from push_empty [OF this f, of ck e] u f show ?thesis
    by (simp add: Nil is_queue_def quiescent_def)
next
  case (snoc ys t)
  from q u have ne: "e \<notin> set xs" by (rule is_queue_unlinked_notin)
  from q snoc have t: "tail s = Elt t" by (simp add: is_queue_def)
  from q snoc have d: "distinct (ys @ [t])" and c: "dll (link s) NULL (ys @ [t]) NULL"
    by (simp_all add: is_queue_def)
  let ?h = "(link s)(e := \<lparr>prev = Elt t, next = NULL\<rparr>)"
  from ne snoc c have "dll ?h NULL (ys @ [t]) NULL" by (simp add: dll_upd_notin)
  from dll_set_exit [OF d _ this, of "Elt e"]
  have c': "dll (?h(t := (?h t)\<lparr>next := Elt e\<rparr>)) NULL (ys @ [t]) (Elt e)" by simp
  from ne snoc have te: "t \<noteq> e" by auto
  have "dll (?h(t := (?h t)\<lparr>next := Elt e\<rparr>)) NULL ((ys @ [t]) @ [e]) NULL"
    unfolding dll_append [of _ _ "ys @ [t]"] using c' te by simp
  with push_nonempty [OF t f, of ck e] u f q ne snoc show ?thesis
    by (auto simp add: is_queue_def quiescent_def first_append final_append)
qed

lemma qlink_both [simp]:
  "(l :: qlink)\<lparr>prev := a, next := b\<rparr> = \<lparr>prev = a, next = b\<rparr>"
  by (cases l) simp

lemma pop_empty:
  "head s = NULL \<Longrightarrow>
   ISC_QUEUE_POP s = (if headlock s = Held then Inl Blocked else Inr (NULL, s))"
  by (cases "headlock s") (simp_all add: ISC_QUEUE_POP_def mutex_defs)

lemma pop_single:
  assumes "head s = Elt x" "next (link s x) = NULL" "quiescent s"
  shows "ISC_QUEUE_POP s =
     Inr (Elt x, s\<lparr>head := NULL, tail := NULL,
                   link := (link s)(x := \<lparr>prev = NOT_LINKED, next = NOT_LINKED\<rparr>)\<rparr>)"
  using assms
  by (cases s) (simp add: ISC_QUEUE_POP_def quiescent_def get_next_def set_prev_def
      set_next_def put_prev_def put_next_def)

lemma pop_many:
  assumes "head s = Elt x" "next (link s x) = Elt y" "quiescent s"
  shows "ISC_QUEUE_POP s =
     Inr (Elt x, s\<lparr>head := Elt y,
                   link := ((link s)(y := (link s y)\<lparr>prev := NULL\<rparr>))
                             (x := \<lparr>prev = NOT_LINKED, next = NOT_LINKED\<rparr>)\<rparr>)"
  using assms
  by (cases s) (simp add: ISC_QUEUE_POP_def quiescent_def get_next_def set_prev_def
      set_next_def put_prev_def put_next_def advance_def)

lemma pop_is_queue:
  assumes q: "is_queue s xs" and f: "quiescent s"
  shows "\<exists>s'. ISC_QUEUE_POP s = Inr (first xs NULL, s') \<and> is_queue s' (tl xs) \<and> quiescent s' \<and>
           (xs \<noteq> [] \<longrightarrow> link s' (hd xs) = \<lparr>prev = NOT_LINKED, next = NOT_LINKED\<rparr>) \<and>
           (\<forall>a. a \<notin> set xs \<longrightarrow> link s' a = link s a)"
proof (cases xs)
  case Nil
  with q f show ?thesis
    by (simp add: pop_empty is_queue_def quiescent_def)
next
  case (Cons x ys)
  note xs = this
  show ?thesis
  proof (cases ys)
    case Nil
    with q xs have "head s = Elt x" "next (link s x) = NULL"
      by (simp_all add: is_queue_def)
    from pop_single [OF this f]
    have p: "ISC_QUEUE_POP s = Inr (first xs NULL,
        s\<lparr>head := NULL, tail := NULL,
          link := (link s)(x := \<lparr>prev = NOT_LINKED, next = NOT_LINKED\<rparr>)\<rparr>)"
      by (simp add: xs)
    show ?thesis
      apply (rule exI, rule conjI, rule p)
      using f apply (simp add: xs Nil is_queue_def quiescent_def)
      done
  next
    case (Cons y zs)
    with q xs have h: "head s = Elt x" "next (link s x) = Elt y"
      and d: "distinct (y # zs)" and x: "x \<notin> set (y # zs)"
      and c: "dll (link s) (Elt x) (y # zs) NULL"
      and t: "tail s = final (y # zs) NULL"
      by (simp_all add: is_queue_def)
    let ?h = "((link s)(y := (link s y)\<lparr>prev := NULL\<rparr>))
                 (x := \<lparr>prev = NOT_LINKED, next = NOT_LINKED\<rparr>)"
    let ?s = "s\<lparr>head := Elt y, link := ?h\<rparr>"
    from dll_set_entry [OF d _ c, of NULL]
    have "dll ((link s)(y := (link s y)\<lparr>prev := NULL\<rparr>)) NULL (y # zs) NULL" by simp
    with dll_upd_notin [OF x]
    have c': "dll ?h NULL (y # zs) NULL"
      by blast
    from pop_many [OF h f]
    have p: "ISC_QUEUE_POP s = Inr (first xs NULL, ?s)"
      by (simp add: xs)
    have 1: "is_queue ?s (tl xs)"
      unfolding is_queue_def xs Cons list.sel using d t c' by simp
    have 2: "quiescent ?s" using f by (simp add: quiescent_def)
    have 3: "link ?s (hd xs) = \<lparr>prev = NOT_LINKED, next = NOT_LINKED\<rparr>"
      by (simp add: xs)
    have 4: "\<forall>a. a \<notin> set xs \<longrightarrow> link ?s a = link s a"
      by (simp add: xs Cons)
    from p 1 2 3 4 show ?thesis by blast
  qed
qed

lemmas link_defs = get_next_def set_prev_def set_next_def put_prev_def put_next_def

lemma unlink_body_only:
  assumes "prev (link s e) = NULL" "next (link s e) = NULL"
  shows "unlink_body e s = Inr (s\<lparr>head := NULL, tail := NULL\<rparr>)"
  using assms by (simp add: unlink_body_def)

lemma unlink_body_head:
  assumes "prev (link s e) = NULL" "next (link s e) = Elt n"
  shows "unlink_body e s =
    Inr (s\<lparr>head := Elt n, link := (link s)(n := (link s n)\<lparr>prev := NULL\<rparr>)\<rparr>)"
  using assms by (simp add: unlink_body_def link_defs)

lemma unlink_body_tail:
  assumes "prev (link s e) = Elt p" "next (link s e) = NULL" "p \<noteq> e"
  shows "unlink_body e s =
    Inr (s\<lparr>tail := Elt p, link := (link s)(p := (link s p)\<lparr>next := NULL\<rparr>)\<rparr>)"
  using assms by (simp add: unlink_body_def link_defs)

lemma unlink_body_inner:
  assumes "prev (link s e) = Elt p" "next (link s e) = Elt n" "p \<noteq> e"
  shows "unlink_body e s =
    Inr (s\<lparr>link := (link s)(p := (link s p)\<lparr>next := Elt n\<rparr>,
                          n := (((link s)(p := (link s p)\<lparr>next := Elt n\<rparr>)) n)\<lparr>prev := Elt p\<rparr>)\<rparr>)"
  using assms by (simp add: unlink_body_def link_defs)

lemma unlink_locked:
  assumes "quiescent s" "ck \<longrightarrow> ISC_QLINK_LINKED s e"
    and "unlink_body e (s\<lparr>headlock := Held, taillock := Held\<rparr>) = Inr s1"
    and "headlock s1 = Held" "taillock s1 = Held"
  shows "ISC_QUEUE_UNLINK ck e s =
     Inr (s1\<lparr>headlock := Free, taillock := Free,
               link := (link s1)(e := \<lparr>prev = NOT_LINKED, next = NOT_LINKED\<rparr>)\<rparr>)"
  using assms
  by (cases s1) (simp add: ISC_QUEUE_UNLINK_def quiescent_def ISC_QLINK_INSIST_def ISC_INSIST_def link_defs)

lemma unlinkiflinked_locked:
  assumes "quiescent s" "ISC_QLINK_LINKED s e"
    and "unlink_body e (s\<lparr>headlock := Held, taillock := Held\<rparr>) = Inr s1"
    and "headlock s1 = Held" "taillock s1 = Held"
  shows "ISC_QUEUE_UNLINKIFLINKED e s =
     Inr (s1\<lparr>headlock := Free, taillock := Free,
               link := (link s1)(e := \<lparr>prev = NOT_LINKED, next = NOT_LINKED\<rparr>)\<rparr>)"
  using assms
  by (cases s1) (simp add: ISC_QUEUE_UNLINKIFLINKED_def quiescent_def ISC_QLINK_LINKED_def link_defs)

lemma unlinkiflinked_unlinked:
  assumes "quiescent s" "\<not> ISC_QLINK_LINKED s e"
  shows "ISC_QUEUE_UNLINKIFLINKED e s =
     Inr (s\<lparr>link := (link s)(e := \<lparr>prev = NOT_LINKED, next = NOT_LINKED\<rparr>)\<rparr>)"
  using assms
  by (cases s) (simp add: ISC_QUEUE_UNLINKIFLINKED_def quiescent_def ISC_QLINK_LINKED_def link_defs)

lemma is_queue_split:
  assumes "is_queue s (pre @ e # post)"
  shows "distinct (pre @ e # post)"
    and "head s = first pre (Elt e)" and "tail s = final post (Elt e)"
    and "dll (link s) NULL pre (Elt e)"
    and "prev (link s e) = final pre NULL" and "next (link s e) = first post NULL"
    and "dll (link s) (Elt e) post NULL"
  using assms
  by (simp_all add: is_queue_def dll_append first_append final_append)

lemma unlink_body_is_queue:
  assumes q: "is_queue s (pre @ e # post)"
  shows "\<exists>s1. unlink_body e s = Inr s1 \<and>
           headlock s1 = headlock s \<and> taillock s1 = taillock s \<and>
           is_queue s1 (pre @ post) \<and>
           (\<forall>a. a \<notin> set (pre @ post) \<longrightarrow> link s1 a = link s a)"
proof -
  note w = is_queue_split [OF q]
  show ?thesis
  proof (cases pre rule: rev_cases)
    case Nil
    note pre = this
    show ?thesis
    proof (cases post)
      case Nil
      with pre w have "prev (link s e) = NULL" "next (link s e) = NULL" by simp_all
      from unlink_body_only [OF this] show ?thesis
        by (simp add: pre Nil is_queue_def)
    next
      case (Cons n ns)
      with pre w have l: "prev (link s e) = NULL" "next (link s e) = Elt n"
        and d: "distinct (n # ns)" and c: "dll (link s) (Elt e) (n # ns) NULL"
        and t: "tail s = final (n # ns) NULL"
        by simp_all
      from dll_set_entry [OF d _ c, of NULL]
      have "dll ((link s)(n := (link s n)\<lparr>prev := NULL\<rparr>)) NULL (n # ns) NULL" by simp
      with unlink_body_head [OF l] d t show ?thesis
        by (simp add: pre Cons is_queue_def)
    qed
  next
    case (snoc ps p)
    note pre = this
    from w pre have pe: "p \<noteq> e" and dp: "distinct (ps @ [p])"
      and cp: "dll (link s) NULL (ps @ [p]) (Elt e)"
      and h: "head s = first (ps @ [p]) NULL"
      by (simp_all add: first_append)
    show ?thesis
    proof (cases post)
      case Nil
      with pre w have l: "prev (link s e) = Elt p" "next (link s e) = NULL" by simp_all
      from dll_set_exit [OF dp _ cp, of NULL]
      have "dll ((link s)(p := (link s p)\<lparr>next := NULL\<rparr>)) NULL (ps @ [p]) NULL" by simp
      with unlink_body_tail [OF l pe] dp h show ?thesis
        by (simp add: pre Nil is_queue_def)
    next
      case (Cons n ns)
      with pre w have l: "prev (link s e) = Elt p" "next (link s e) = Elt n"
        and d: "distinct (n # ns)" and c: "dll (link s) (Elt e) (n # ns) NULL"
        and t: "tail s = final (n # ns) NULL"
        and np: "n \<noteq> p" and n1: "n \<notin> set (ps @ [p])" and p1: "p \<notin> set (n # ns)"
        and dd: "distinct ((ps @ [p]) @ (n # ns))"
        by auto
      let ?A = "(link s p)\<lparr>next := Elt n\<rparr>" and ?B = "(link s n)\<lparr>prev := Elt p\<rparr>"
      let ?h = "(link s)(p := ?A, n := ?B)"
      from dll_set_exit [OF dp _ cp, of "Elt n"]
      have "dll ((link s)(p := ?A)) NULL (ps @ [p]) (Elt n)" by simp
      with dll_upd_notin [OF n1] have 1: "dll ?h NULL (ps @ [p]) (Elt n)" by blast
      from dll_set_entry [OF d _ c, of "Elt p"]
      have "dll ((link s)(n := ?B)) (Elt p) (n # ns) NULL" by simp
      with dll_upd_notin [OF p1] have "dll ((link s)(n := ?B, p := ?A)) (Elt p) (n # ns) NULL"
        by blast
      moreover from np have "(link s)(n := ?B, p := ?A) = ?h" by (rule fun_upd_twist)
      ultimately have 2: "dll ?h (Elt p) (n # ns) NULL" by simp
      from 1 2 have 3: "dll ?h NULL ((ps @ [p]) @ (n # ns)) NULL"
        unfolding dll_append by simp
      from unlink_body_inner [OF l pe] np
      have b: "unlink_body e s = Inr (s\<lparr>link := ?h\<rparr>)" by simp
      have "is_queue (s\<lparr>link := ?h\<rparr>) ((ps @ [p]) @ (n # ns))"
        unfolding is_queue_def using dd h t 3 by (simp add: first_append final_append)
      moreover have "\<forall>a. a \<notin> set (pre @ post) \<longrightarrow> link (s\<lparr>link := ?h\<rparr>) a = link s a"
        by (simp add: pre Cons)
      ultimately show ?thesis using b by (simp add: pre Cons)
    qed
  qed
qed

lemma is_queue_locks [simp]:
  "is_queue (s\<lparr>headlock := a\<rparr>) xs = is_queue s xs"
  "is_queue (s\<lparr>taillock := b\<rparr>) xs = is_queue s xs"
  by (simp_all add: is_queue_def)

lemma is_queue_reset:
  assumes "is_queue s xs" "e \<notin> set xs"
  shows "is_queue (s\<lparr>link := (link s)(e := l)\<rparr>) xs"
  using assms by (simp add: is_queue_def dll_upd_notin)

lemma unlink_is_queue:
  assumes q: "is_queue s xs" and f: "quiescent s" and m: "e \<in> set xs"
  shows "\<exists>s'. ISC_QUEUE_UNLINK ck e s = Inr s' \<and> is_queue s' (remove1 e xs) \<and> quiescent s' \<and>
           link s' e = \<lparr>prev = NOT_LINKED, next = NOT_LINKED\<rparr> \<and>
           (\<forall>a. a \<notin> set xs \<longrightarrow> link s' a = link s a)"
proof -
  from m obtain pre post where xs: "xs = pre @ e # post" and e1: "e \<notin> set pre"
    by (auto dest: split_list_first)
  from q xs have d: "distinct (pre @ e # post)" by (simp add: is_queue_def)
  with e1 have r: "remove1 e xs = pre @ post" and e2: "e \<notin> set (pre @ post)"
    by (simp_all add: xs remove1_append)
  let ?s = "s\<lparr>headlock := Held, taillock := Held\<rparr>"
  from q xs have "is_queue ?s (pre @ e # post)" by simp
  from unlink_body_is_queue [OF this] obtain s1 where
    b: "unlink_body e ?s = Inr s1" and l: "headlock s1 = Held" "taillock s1 = Held"
    and q1: "is_queue s1 (pre @ post)"
    and fr: "\<forall>a. a \<notin> set (pre @ post) \<longrightarrow> link s1 a = link s a"
    by auto
  from q m have "ISC_QLINK_LINKED s e" using is_queue_unlinked_notin by blast
  then have "ck \<longrightarrow> ISC_QLINK_LINKED s e" by simp
  note u = unlink_locked [OF f this b l]
  let ?s' = "s1\<lparr>headlock := Free, taillock := Free,
               link := (link s1)(e := \<lparr>prev = NOT_LINKED, next = NOT_LINKED\<rparr>)\<rparr>"
  from is_queue_reset [OF q1 e2] have "is_queue ?s' (remove1 e xs)"
    by (simp add: r is_queue_def)
  moreover have "quiescent ?s'" by (simp add: quiescent_def)
  moreover have "link ?s' e = \<lparr>prev = NOT_LINKED, next = NOT_LINKED\<rparr>" by simp
  moreover from fr have "\<forall>a. a \<notin> set xs \<longrightarrow> link ?s' a = link s a" by (simp add: xs)
  ultimately show ?thesis using u by blast
qed

lemma unlinkiflinked_is_queue:
  assumes q: "is_queue s xs" and f: "quiescent s" and m: "ISC_QLINK_LINKED s e \<longrightarrow> e \<in> set xs"
  shows "\<exists>s'. ISC_QUEUE_UNLINKIFLINKED e s = Inr s' \<and> is_queue s' (remove1 e xs) \<and>
           quiescent s' \<and> link s' e = \<lparr>prev = NOT_LINKED, next = NOT_LINKED\<rparr> \<and>
           (\<forall>a. a \<noteq> e \<and> a \<notin> set xs \<longrightarrow> link s' a = link s a)"
proof (cases "ISC_QLINK_LINKED s e")
  case True
  with m have m': "e \<in> set xs" by simp
  then obtain pre post where xs: "xs = pre @ e # post" and e1: "e \<notin> set pre"
    by (auto dest: split_list_first)
  from q xs have d: "distinct (pre @ e # post)" by (simp add: is_queue_def)
  with e1 have r: "remove1 e xs = pre @ post" and e2: "e \<notin> set (pre @ post)"
    by (simp_all add: xs remove1_append)
  let ?s = "s\<lparr>headlock := Held, taillock := Held\<rparr>"
  from q xs have "is_queue ?s (pre @ e # post)" by simp
  from unlink_body_is_queue [OF this] obtain s1 where
    b: "unlink_body e ?s = Inr s1" and l: "headlock s1 = Held" "taillock s1 = Held"
    and q1: "is_queue s1 (pre @ post)"
    and fr: "\<forall>a. a \<notin> set (pre @ post) \<longrightarrow> link s1 a = link s a"
    by auto
  note u = unlinkiflinked_locked [OF f True b l]
  let ?s' = "s1\<lparr>headlock := Free, taillock := Free,
               link := (link s1)(e := \<lparr>prev = NOT_LINKED, next = NOT_LINKED\<rparr>)\<rparr>"
  from is_queue_reset [OF q1 e2] have "is_queue ?s' (remove1 e xs)"
    by (simp add: r is_queue_def)
  moreover have "quiescent ?s'" by (simp add: quiescent_def)
  moreover have "link ?s' e = \<lparr>prev = NOT_LINKED, next = NOT_LINKED\<rparr>" by simp
  moreover from fr have "\<forall>a. a \<noteq> e \<and> a \<notin> set xs \<longrightarrow> link ?s' a = link s a" by (simp add: xs)
  ultimately show ?thesis using u by blast
next
  case False
  with q have n: "e \<notin> set xs" by (rule is_queue_unlinked_notin)
  then have r: "remove1 e xs = xs" by (simp add: remove1_idem)
  note u = unlinkiflinked_unlinked [OF f False]
  from is_queue_reset [OF q n] f u show ?thesis
    by (simp add: r quiescent_def)
qed

lemma fifo_conserves:
  "popped (fst (fifo ops q)) @ snd (fifo ops q) = q @ pushed ops"
  by (induction ops q rule: fifo.induct) (simp_all add: case_prod_unfold Let_def)

lemma pool_after_push:
  assumes q: "is_queue s q" and p: "\<forall>a\<in>pool. \<not> ISC_QLINK_LINKED s a"
    and fr: "\<forall>a. a \<noteq> e \<and> a \<notin> set q \<longrightarrow> link s' a = link s a"
  shows "\<forall>a\<in>pool - {e}. \<not> ISC_QLINK_LINKED s' a"
proof
  fix a assume a: "a \<in> pool - {e}"
  with p have u: "\<not> ISC_QLINK_LINKED s a" by simp
  with q have "a \<notin> set q" by (rule is_queue_unlinked_notin)
  with a fr have "link s' a = link s a" by simp
  with u show "\<not> ISC_QLINK_LINKED s' a" by (simp add: ISC_QLINK_LINKED_def)
qed

lemma pool_after_pop:
  assumes q: "is_queue s (x # q)" and p: "\<forall>a\<in>pool. \<not> ISC_QLINK_LINKED s a"
    and r: "link s' x = \<lparr>prev = NOT_LINKED, next = NOT_LINKED\<rparr>"
    and fr: "\<forall>a. a \<notin> set (x # q) \<longrightarrow> link s' a = link s a"
  shows "\<forall>a\<in>insert x pool. \<not> ISC_QLINK_LINKED s' a"
proof
  fix a assume a: "a \<in> insert x pool"
  show "\<not> ISC_QLINK_LINKED s' a"
  proof (cases "a = x")
    case True
    with r show ?thesis by (simp add: ISC_QLINK_LINKED_def)
  next
    case False
    with a p have u: "\<not> ISC_QLINK_LINKED s a" by simp
    with q have "a \<notin> set (x # q)" by (rule is_queue_unlinked_notin)
    with fr have "link s' a = link s a" by simp
    with u show ?thesis by (simp add: ISC_QLINK_LINKED_def)
  qed
qed

lemma run_fifo:
  assumes "is_queue s q" "quiescent s" "\<forall>a\<in>pool. \<not> ISC_QLINK_LINKED s a"
    and "admissible pool ops q"
  shows "\<exists>s'. run ck ops s = Inr (fst (fifo ops q), s') \<and>
           is_queue s' (snd (fifo ops q)) \<and> quiescent s'"
  using assms
proof (induction ops arbitrary: s q pool)
  case Nil
  then show ?case by simp
next
  case (Cons op ops)
  show ?case
  proof (cases op)
    case (Push e)
    with Cons.prems have e: "e \<in> pool" and a: "admissible (pool - {e}) ops (q @ [e])"
      by simp_all
    with Cons.prems have "\<not> ISC_QLINK_LINKED s e" by simp
    from push_is_queue [OF Cons.prems(1,2) this, of ck] obtain s1 where
      1: "ISC_QUEUE_PUSH ck e s = Inr s1" "is_queue s1 (q @ [e])" "quiescent s1"
      and fr: "\<forall>a. a \<noteq> e \<and> a \<notin> set q \<longrightarrow> link s1 a = link s a"
      by blast
    note pool_after_push [OF Cons.prems(1,3) fr]
    from Cons.IH [OF 1(2,3) this a] 1(1) show ?thesis
      by (simp add: Push)
  next
    case Pop
    show ?thesis
    proof (cases q)
      case Nil
      with Cons.prems Pop have a: "admissible pool ops []" by simp
      from pop_is_queue [OF Cons.prems(1,2)] Nil obtain s1 where
        1: "ISC_QUEUE_POP s = Inr (NULL, s1)" "is_queue s1 []" "quiescent s1"
        and fr: "\<forall>a. link s1 a = link s a"
        by auto
      from Cons.prems(3) fr have "\<forall>a\<in>pool. \<not> ISC_QLINK_LINKED s1 a"
        by (simp add: ISC_QLINK_LINKED_def)
      from Cons.IH [OF 1(2,3) this a] 1(1) show ?thesis
        by (auto simp: Pop Nil case_prod_unfold Let_def)
    next
      case (Cons x q')
      with Cons.prems Pop have a: "admissible (insert x pool) ops q'" by simp
      from Cons.prems(1) Cons have q: "is_queue s (x # q')" by simp
      from pop_is_queue [OF q Cons.prems(2)] obtain s1 where
        1: "ISC_QUEUE_POP s = Inr (Elt x, s1)" "is_queue s1 q'" "quiescent s1"
        and r: "link s1 x = \<lparr>prev = NOT_LINKED, next = NOT_LINKED\<rparr>"
        and fr: "\<forall>a. a \<notin> set (x # q') \<longrightarrow> link s1 a = link s a"
        by auto
      note pool_after_pop [OF q Cons.prems(3) r fr]
      from Cons.IH [OF 1(2,3) this a] 1(1) show ?thesis
        by (auto simp: Pop Cons case_prod_unfold Let_def)
    qed
  qed
qed

section \<open>Properties of the queue\<close>

lemma queue0_simps [simp]:
  "head queue0 = NULL" "tail queue0 = NULL" "headlock queue0 = Free" "taillock queue0 = Free"
  "link queue0 a = \<lparr>prev = NOT_LINKED, next = NOT_LINKED\<rparr>"
  by (simp_all add: queue0_def)

lemma queue1_simps [simp]:
  "head queue1 = Elt 1" "tail queue1 = Elt 1" "headlock queue1 = Free" "taillock queue1 = Free"
  "link queue1 a = (if a = 1 then \<lparr>prev = NULL, next = NULL\<rparr>
                    else \<lparr>prev = NOT_LINKED, next = NOT_LINKED\<rparr>)"
  by (simp_all add: queue1_def)

lemma is_queue_queue0: "is_queue queue0 []"
  by (simp add: is_queue_def)

lemma is_queue_queue1: "is_queue queue1 [1]"
  by (simp add: is_queue_def)

lemma quiescent_queue0: "quiescent queue0"
  by (simp add: quiescent_def)

lemma quiescent_queue1: "quiescent queue1"
  by (simp add: quiescent_def)

lemma unlinked_queue0: "\<not> ISC_QLINK_LINKED queue0 a"
  by (simp add: ISC_QLINK_LINKED_def)

text \<open>
  C3. In the empty state (\<open>head\<close> is \<open>NULL\<close>) a pop answers "empty", the \<open>NULL\<close>
  element, and leaves the state as it was, head and tail included. It never stops in
  a fault: the only way it does not return is that it finds the head lock held and
  waits for it, and with the head lock free it returns.
\<close>

theorem pop_on_empty_queue:
  assumes "ISC_QUEUE_EMPTY s"
  shows "(headlock s = Free \<longrightarrow> ISC_QUEUE_POP s = Inr (NULL, s)) \<and>
         (\<forall>h. ISC_QUEUE_POP s = Inl h \<longrightarrow> \<not> is_fault h) \<and>
         (\<forall>ret s'. ISC_QUEUE_POP s = Inr (ret, s') \<longrightarrow> ret = NULL \<and> s' = s)"
proof -
  from assms have "head s = NULL" by (simp add: ISC_QUEUE_EMPTY_def)
  from pop_empty [OF this] show ?thesis
    by (cases "headlock s") (simp_all add: is_fault_def)
qed

theorem pop_on_empty_queue_witness:
  "ISC_QUEUE_EMPTY queue0 \<and> headlock queue0 = Free \<and> ISC_QUEUE_POP queue0 = Inr (NULL, queue0)"
proof -
  have e: "ISC_QUEUE_EMPTY queue0" by (simp add: ISC_QUEUE_EMPTY_def)
  from pop_on_empty_queue [OF e] e show ?thesis by simp
qed

text \<open>
  C4, as it is worded for every queue, fails on a queue that holds an element: after
  a push of element 2 on the queue holding element 1, the pop returns element 1 and
  the queue is not empty.
\<close>

theorem push_pop_nonempty_counterexample:
  "\<not> ISC_QLINK_LINKED queue1 2 \<and>
   map_sum id fst (andthen (ISC_QUEUE_PUSH False 2 queue1) ISC_QUEUE_POP) = Inr (Elt 1) \<and>
   map_sum id (ISC_QUEUE_EMPTY \<circ> snd) (andthen (ISC_QUEUE_PUSH False 2 queue1) ISC_QUEUE_POP)
     = Inr False"
proof -
  have u: "\<not> ISC_QLINK_LINKED queue1 2" by (simp add: ISC_QLINK_LINKED_def)
  then have c: "False \<longrightarrow> \<not> ISC_QLINK_LINKED queue1 2" by simp
  have t: "tail queue1 = Elt 1" by simp
  note p = push_nonempty [OF t quiescent_queue1 c]
  let ?s = "queue1\<lparr>tail := Elt 2,
      link := (link queue1)(2 := \<lparr>prev = Elt 1, next = NULL\<rparr>,
        1 := ((link queue1)(2 := \<lparr>prev = Elt 1, next = NULL\<rparr>)) 1 \<lparr>next := Elt 2\<rparr>)\<rparr>"
  have "head ?s = Elt 1" "next (link ?s 1) = Elt 2" "quiescent ?s"
    by (simp_all add: quiescent_def)
  from pop_many [OF this] p u show ?thesis
    by (simp add: ISC_QUEUE_EMPTY_def)
qed

text \<open>
  C4, amended. On a queue in the empty state (head and tail \<open>NULL\<close>, both locks
  free) and an element that is not linked, a push followed by a pop returns exactly
  that element; its link fields are the not-linked marker; the queue is empty again,
  with head and tail \<open>NULL\<close> as before, and no other element was touched.
\<close>

theorem push_pop_on_empty_queue:
  assumes "head s = NULL" "tail s = NULL" "quiescent s" "\<not> ISC_QLINK_LINKED s e"
  shows "\<exists>s'. andthen (ISC_QUEUE_PUSH ck e s) ISC_QUEUE_POP = Inr (Elt e, s') \<and>
           link s' e = \<lparr>prev = NOT_LINKED, next = NOT_LINKED\<rparr> \<and>
           ISC_QUEUE_EMPTY s' \<and> head s' = head s \<and> tail s' = tail s \<and> quiescent s' \<and>
           (\<forall>a. a \<noteq> e \<longrightarrow> link s' a = link s a)"
proof -
  from assms(4) have c: "ck \<longrightarrow> \<not> ISC_QLINK_LINKED s e" by simp
  let ?s1 = "s\<lparr>head := Elt e, tail := Elt e, link := (link s)(e := \<lparr>prev = NULL, next = NULL\<rparr>)\<rparr>"
  have 1: "ISC_QUEUE_PUSH ck e s = Inr ?s1"
    by (rule push_empty [OF assms(1,2,3) c])
  have "head ?s1 = Elt e" "next (link ?s1 e) = NULL" "quiescent ?s1"
    using assms(3) by (simp_all add: quiescent_def)
  note 2 = pop_single [OF this]
  from 1 2 assms show ?thesis
    by (simp add: ISC_QUEUE_EMPTY_def quiescent_def)
qed

theorem push_pop_on_empty_queue_witness:
  "head queue0 = NULL \<and> tail queue0 = NULL \<and> quiescent queue0 \<and> \<not> ISC_QLINK_LINKED queue0 1 \<and>
   map_sum id fst (andthen (ISC_QUEUE_PUSH False 1 queue0) ISC_QUEUE_POP) = Inr (Elt 1) \<and>
   map_sum id (ISC_QUEUE_EMPTY \<circ> snd) (andthen (ISC_QUEUE_PUSH False 1 queue0) ISC_QUEUE_POP)
     = Inr True"
  using push_pop_on_empty_queue [of queue0 1 False] quiescent_queue0 unlinked_queue0 [of 1]
  by auto

text \<open>
  C6, as it is worded for every build of the header, fails where
  \<^verbatim>\<open>ISC_QUEUE_CHECKINIT\<close> is not defined: the check is compiled out, and the push of
  element 1, which is linked in the queue that holds it, returns, leaving the element
  linked to itself.
\<close>

theorem push_linked_unchecked_counterexample:
  "ISC_QLINK_LINKED queue1 1 \<and>
   ISC_QUEUE_PUSH False 1 queue1
     = Inr (queue1\<lparr>link := (link queue1)(1 := \<lparr>prev = Elt 1, next = Elt 1\<rparr>)\<rparr>)"
proof -
  have l: "ISC_QLINK_LINKED queue1 1" by (simp add: ISC_QLINK_LINKED_def)
  have c: "False \<longrightarrow> \<not> ISC_QLINK_LINKED queue1 1" by simp
  have t: "tail queue1 = Elt 1" by simp
  from push_nonempty [OF t quiescent_queue1 c] l show ?thesis
    by (simp add: queue1_def)
qed

lemma lock_no_insist:
  "lock_head s \<noteq> Inl Insist_failed" "lock_tail s \<noteq> Inl Insist_failed"
  "unlock_head s \<noteq> Inl Insist_failed" "unlock_tail s \<noteq> Inl Insist_failed"
  by (simp_all add: mutex_defs Let_def split: prod.splits)

lemma set_next_no_insist: "set_next p v s \<noteq> Inl Insist_failed"
  by (simp add: set_next_def split: ptr.splits)

lemma andthen_no_insist:
  assumes "m \<noteq> Inl Insist_failed" "\<And>x. f x \<noteq> Inl Insist_failed"
  shows "andthen m f \<noteq> Inl Insist_failed"
  using assms by (cases m) simp_all

lemma push_unchecked_no_insist: "ISC_QUEUE_PUSH False e s \<noteq> Inl Insist_failed"
  unfolding ISC_QUEUE_PUSH_def ISC_QLINK_INSIST_def Let_def
  by (simp add: lock_no_insist set_next_no_insist andthen_no_insist split: prod.splits)

text \<open>
  C6, amended. In the build with \<^verbatim>\<open>ISC_QUEUE_CHECKINIT\<close> defined, the push of an
  element that is linked stops in the fault of \<^verbatim>\<open>ISC_INSIST\<close>, for every queue,
  before a lock is taken. In the build without it the push never stops in that fault.
\<close>

theorem push_linked_checked:
  assumes "ISC_QLINK_LINKED s e"
  shows "ISC_QUEUE_PUSH True e s = Inl Insist_failed \<and> is_fault Insist_failed \<and>
         ISC_QUEUE_PUSH False e s \<noteq> Inl Insist_failed"
  using assms push_unchecked_no_insist [of e s]
  by (simp add: ISC_QUEUE_PUSH_def ISC_QLINK_INSIST_def ISC_INSIST_def is_fault_def)

theorem push_linked_checked_witness:
  "ISC_QLINK_LINKED queue1 1 \<and> ISC_QUEUE_PUSH True 1 queue1 = Inl Insist_failed"
proof -
  have l: "ISC_QLINK_LINKED queue1 1" by (simp add: ISC_QLINK_LINKED_def)
  from push_linked_checked [OF l] l show ?thesis by simp
qed

lemma run_checked:
  assumes "is_queue s q" "quiescent s"
  shows "run True ops s = Inl Insist_failed \<or>
         (\<exists>s'. run True ops s = Inr (fst (fifo ops q), s') \<and>
            is_queue s' (snd (fifo ops q)) \<and> quiescent s')"
  using assms
proof (induction ops arbitrary: s q)
  case Nil
  then show ?case by simp
next
  case (Cons op ops)
  show ?case
  proof (cases op)
    case (Push e)
    show ?thesis
    proof (cases "ISC_QLINK_LINKED s e")
      case True
      then have "ISC_QUEUE_PUSH True e s = Inl Insist_failed"
        by (simp add: ISC_QUEUE_PUSH_def ISC_QLINK_INSIST_def ISC_INSIST_def)
      then show ?thesis by (simp add: Push)
    next
      case False
      from push_is_queue [OF Cons.prems False, of True] obtain s1 where
        1: "ISC_QUEUE_PUSH True e s = Inr s1" "is_queue s1 (q @ [e])" "quiescent s1"
        by blast
      from Cons.IH [OF 1(2,3)] 1(1) show ?thesis
        by (simp add: Push)
    qed
  next
    case Pop
    from pop_is_queue [OF Cons.prems] obtain s1 where
      1: "ISC_QUEUE_POP s = Inr (first q NULL, s1)" "is_queue s1 (tl q)" "quiescent s1"
      by blast
    from Cons.IH [OF 1(2,3)] 1(1) show ?thesis
      by (cases q) (auto simp: Pop case_prod_unfold Let_def)
  qed
qed

lemmas queue_run_defs =
  ISC_QUEUE_PUSH_def ISC_QUEUE_POP_def ISC_QUEUE_UNLINK_def unlink_body_def advance_def
  ISC_QLINK_LINKED_def link_defs mutex_defs Let_def

text \<open>
  C5, as it is worded for every sequence of pushes and pops, fails in the build
  without \<^verbatim>\<open>ISC_QUEUE_CHECKINIT\<close>: on the empty queue, the pushes of 1, 2 and again
  1, which is linked by then, followed by two pops, all return; the pops answer 1 and
  "empty", where first-in first-out order answers 1 and 2. Element 2 was pushed and
  is never popped.
\<close>

theorem fifo_unchecked_counterexample:
  "map_sum id fst (run False [Push 1, Push 2, Push 1, Pop, Pop] queue0) = Inr [Elt 1, NULL] \<and>
   pushed [Push 1, Push 2, Push 1, Pop, Pop] = [1, 2, 1] \<and>
   fst (fifo [Push 1, Push 2, Push 1, Pop, Pop] []) = [Elt 1, Elt 2]"
  by (simp add: queue_run_defs queue0_def)

text \<open>
  C5, amended. The queue is first-in first-out for the sequences of pushes and pops
  in which every pushed element is not linked when it is pushed. Start from a
  quiescent state whose queue holds the elements \<open>q\<close>, and run such a sequence: the
  run returns; every pop has returned the element at the head of the list of elements
  in push order, the earliest-pushed one still in the queue, or "empty" when there is
  none; and the queue holds what is left of that list. In the build with
  \<^verbatim>\<open>ISC_QUEUE_CHECKINIT\<close> this holds of every sequence, but for the runs that stop
  in the fault of a push of a linked element. The popped elements followed by the
  elements left are the initial elements followed by the pushed ones, in push order.
\<close>

theorem queue_is_fifo:
  assumes "is_queue s q" "quiescent s"
  shows "((\<forall>a\<in>pool. \<not> ISC_QLINK_LINKED s a) \<and> admissible pool ops q \<longrightarrow>
            (\<exists>s'. run ck ops s = Inr (fst (fifo ops q), s') \<and>
               is_queue s' (snd (fifo ops q)) \<and> quiescent s')) \<and>
         (run True ops s = Inl Insist_failed \<or>
            (\<exists>s'. run True ops s = Inr (fst (fifo ops q), s') \<and>
               is_queue s' (snd (fifo ops q)) \<and> quiescent s')) \<and>
         popped (fst (fifo ops q)) @ snd (fifo ops q) = q @ pushed ops"
proof (intro conjI impI)
  assume "(\<forall>a\<in>pool. \<not> ISC_QLINK_LINKED s a) \<and> admissible pool ops q"
  then have "\<forall>a\<in>pool. \<not> ISC_QLINK_LINKED s a" "admissible pool ops q" by simp_all
  from run_fifo [OF assms this]
  show "\<exists>s'. run ck ops s = Inr (fst (fifo ops q), s') \<and>
          is_queue s' (snd (fifo ops q)) \<and> quiescent s'" .
next
  from run_checked [OF assms]
  show "run True ops s = Inl Insist_failed \<or>
          (\<exists>s'. run True ops s = Inr (fst (fifo ops q), s') \<and>
             is_queue s' (snd (fifo ops q)) \<and> quiescent s')" .
next
  show "popped (fst (fifo ops q)) @ snd (fifo ops q) = q @ pushed ops"
    by (rule fifo_conserves)
qed

theorem queue_is_fifo_witness:
  "is_queue queue0 [] \<and> quiescent queue0 \<and>
   \<not> ISC_QLINK_LINKED queue0 1 \<and> \<not> ISC_QLINK_LINKED queue0 2 \<and> \<not> ISC_QLINK_LINKED queue0 3 \<and>
   admissible {1, 2, 3} [Push 1, Push 2, Pop, Push 3, Pop, Push 1, Pop, Pop, Pop] [] \<and>
   map_sum id fst (run False [Push 1, Push 2, Pop, Push 3, Pop, Push 1, Pop, Pop, Pop] queue0)
     = Inr [Elt 1, Elt 2, Elt 3, Elt 1, NULL]"
proof -
  let ?ops = "[Push 1, Push 2, Pop, Push 3, Pop, Push 1, Pop, Pop, Pop]"
  have p: "\<forall>a\<in>{1, 2, 3}. \<not> ISC_QLINK_LINKED queue0 a" by (simp add: unlinked_queue0)
  have a: "admissible {1, 2, 3} ?ops []" by simp
  from queue_is_fifo [OF is_queue_queue0 quiescent_queue0, of "{1, 2, 3}" ?ops False] p a
  show ?thesis using is_queue_queue0 quiescent_queue0
    by (auto simp: unlinked_queue0)
qed

lemma dll_last:
  "dll h p xs n \<Longrightarrow> xs \<noteq> [] \<Longrightarrow> next (h (last xs)) = n"
  by (cases xs rule: rev_cases) (simp_all add: dll_append)

lemma is_queue_empty_iff: "is_queue s xs \<Longrightarrow> ISC_QUEUE_EMPTY s \<longleftrightarrow> xs = []"
  by (cases xs) (simp_all add: is_queue_def ISC_QUEUE_EMPTY_def)

lemma is_queue_invariant:
  assumes "is_queue s xs"
  shows "queue_invariant s"
proof (cases xs)
  case Nil
  with assms show ?thesis
    by (simp add: is_queue_def queue_invariant_def ISC_QUEUE_EMPTY_def)
next
  case (Cons x ys)
  with assms have h: "head s = Elt x" "prev (link s x) = NULL"
    and t: "tail s = Elt (last xs)" and c: "dll (link s) NULL xs NULL"
    by (simp_all add: is_queue_def final_def)
  from dll_last [OF c] Cons have "next (link s (last xs)) = NULL" by simp
  with h t show ?thesis
    by (simp add: queue_invariant_def ISC_QUEUE_EMPTY_def)
qed

lemma init_is_queue: "is_queue (ISC_QUEUE_INIT s0) [] \<and> quiescent (ISC_QUEUE_INIT s0)"
  by (simp add: ISC_QUEUE_INIT_def is_queue_def quiescent_def isc_mutex_init_def Let_def)

text \<open>
  C7, as it is worded for every queue operation, fails where an operation is given an
  element outside its requirement. In the build without \<^verbatim>\<open>ISC_QUEUE_CHECKINIT\<close>
  the push of element 1 on the queue that holds it returns with element 1 at the head
  and its predecessor field pointing to itself. In either build the unlink, from an
  empty queue, of element 2, which is linked in another list, returns with a head
  that is not \<open>NULL\<close> and a tail that is.
\<close>

theorem invariant_unchecked_counterexample:
  "is_queue queue1 [1] \<and> quiescent queue1 \<and> queue_invariant queue1 \<and>
   ISC_QLINK_LINKED queue1 1 \<and>
   map_sum id queue_invariant (ISC_QUEUE_PUSH False 1 queue1) = Inr False \<and>
   is_queue queue_other [] \<and> quiescent queue_other \<and> queue_invariant queue_other \<and>
   ISC_QLINK_LINKED queue_other 2 \<and>
   map_sum id queue_invariant (ISC_QUEUE_UNLINK True 2 queue_other) = Inr False"
proof -
  have l: "ISC_QLINK_LINKED queue1 1" by (simp add: ISC_QLINK_LINKED_def)
  have c: "False \<longrightarrow> \<not> ISC_QLINK_LINKED queue1 1" by simp
  have t: "tail queue1 = Elt 1" by simp
  from push_nonempty [OF t quiescent_queue1 c]
  have push: "map_sum id queue_invariant (ISC_QUEUE_PUSH False 1 queue1) = Inr False"
    by (simp add: queue_invariant_def ISC_QUEUE_EMPTY_def)
  have o: "is_queue queue_other []" "quiescent queue_other" "ISC_QLINK_LINKED queue_other 2"
    by (simp_all add: is_queue_def quiescent_def ISC_QLINK_LINKED_def queue_other_def)
  have unlink: "map_sum id queue_invariant (ISC_QUEUE_UNLINK True 2 queue_other) = Inr False"
    by (simp add: queue_run_defs queue_other_def queue_invariant_def ISC_QUEUE_EMPTY_def)
  from l push o unlink is_queue_queue1 quiescent_queue1
    is_queue_invariant [OF is_queue_queue1] is_queue_invariant [OF o(1)]
  show ?thesis by simp
qed

text \<open>
  C7, amended. The structural invariant (the queue is empty exactly when head and
  tail are both \<open>NULL\<close>; in a queue that is not empty the head element has no
  predecessor and the tail element has no successor) holds after \<open>init\<close> and is kept
  by \<open>pop\<close>, by \<open>push\<close> of an element that is not linked, by \<open>unlink\<close> of an
  element of this queue, and by \<open>unlink_if_linked\<close> of an element that is in this
  queue if it is linked at all. It is kept as part of a stronger fact that each of
  them keeps as well: head, tail and the links hold a list of distinct elements
  chained in both directions. Each operation returns, and changes that list as it
  should.
\<close>

theorem queue_invariant_preserved:
  "is_queue (ISC_QUEUE_INIT s0) [] \<and> quiescent (ISC_QUEUE_INIT s0) \<and>
   queue_invariant (ISC_QUEUE_INIT s0) \<and>
   (is_queue s xs \<longrightarrow> queue_invariant s \<and> (ISC_QUEUE_EMPTY s \<longleftrightarrow> xs = [])) \<and>
   (is_queue s xs \<and> quiescent s \<and> \<not> ISC_QLINK_LINKED s e \<longrightarrow>
      (\<exists>s'. ISC_QUEUE_PUSH ck e s = Inr s' \<and>
         is_queue s' (xs @ [e]) \<and> quiescent s' \<and> queue_invariant s')) \<and>
   (is_queue s xs \<and> quiescent s \<longrightarrow>
      (\<exists>ret s'. ISC_QUEUE_POP s = Inr (ret, s') \<and>
         is_queue s' (tl xs) \<and> quiescent s' \<and> queue_invariant s')) \<and>
   (is_queue s xs \<and> quiescent s \<and> e \<in> set xs \<longrightarrow>
      (\<exists>s'. ISC_QUEUE_UNLINK ck e s = Inr s' \<and>
         is_queue s' (remove1 e xs) \<and> quiescent s' \<and> queue_invariant s')) \<and>
   (is_queue s xs \<and> quiescent s \<and> (ISC_QLINK_LINKED s e \<longrightarrow> e \<in> set xs) \<longrightarrow>
      (\<exists>s'. ISC_QUEUE_UNLINKIFLINKED e s = Inr s' \<and>
         is_queue s' (remove1 e xs) \<and> quiescent s' \<and> queue_invariant s'))"
proof (intro conjI impI)
  show "is_queue (ISC_QUEUE_INIT s0) []" "quiescent (ISC_QUEUE_INIT s0)"
    by (simp_all add: init_is_queue)
  then show "queue_invariant (ISC_QUEUE_INIT s0)" by (simp add: is_queue_invariant)
next
  assume "is_queue s xs"
  then show "queue_invariant s" "ISC_QUEUE_EMPTY s \<longleftrightarrow> xs = []"
    by (simp_all add: is_queue_invariant is_queue_empty_iff)
next
  assume "is_queue s xs \<and> quiescent s \<and> \<not> ISC_QLINK_LINKED s e"
  then have "is_queue s xs" "quiescent s" "\<not> ISC_QLINK_LINKED s e" by simp_all
  from push_is_queue [OF this, of ck]
  show "\<exists>s'. ISC_QUEUE_PUSH ck e s = Inr s' \<and>
          is_queue s' (xs @ [e]) \<and> quiescent s' \<and> queue_invariant s'"
    using is_queue_invariant by blast
next
  assume "is_queue s xs \<and> quiescent s"
  then have "is_queue s xs" "quiescent s" by simp_all
  from pop_is_queue [OF this]
  show "\<exists>ret s'. ISC_QUEUE_POP s = Inr (ret, s') \<and>
          is_queue s' (tl xs) \<and> quiescent s' \<and> queue_invariant s'"
    using is_queue_invariant by blast
next
  assume "is_queue s xs \<and> quiescent s \<and> e \<in> set xs"
  then have "is_queue s xs" "quiescent s" "e \<in> set xs" by simp_all
  from unlink_is_queue [OF this, of ck]
  show "\<exists>s'. ISC_QUEUE_UNLINK ck e s = Inr s' \<and>
          is_queue s' (remove1 e xs) \<and> quiescent s' \<and> queue_invariant s'"
    using is_queue_invariant by blast
next
  assume "is_queue s xs \<and> quiescent s \<and> (ISC_QLINK_LINKED s e \<longrightarrow> e \<in> set xs)"
  then have "is_queue s xs" "quiescent s" "ISC_QLINK_LINKED s e \<longrightarrow> e \<in> set xs" by simp_all
  from unlinkiflinked_is_queue [OF this]
  show "\<exists>s'. ISC_QUEUE_UNLINKIFLINKED e s = Inr s' \<and>
          is_queue s' (remove1 e xs) \<and> quiescent s' \<and> queue_invariant s'"
    using is_queue_invariant by blast
qed

theorem queue_invariant_preserved_witness:
  "is_queue queue1 [1] \<and> quiescent queue1 \<and> queue_invariant queue1 \<and>
   \<not> ISC_QUEUE_EMPTY queue1 \<and> \<not> ISC_QLINK_LINKED queue1 2 \<and> ISC_QLINK_LINKED queue1 1 \<and>
   queue_invariant (ISC_QUEUE_INIT queue1) \<and>
   map_sum id queue_invariant (ISC_QUEUE_PUSH False 2 queue1) = Inr True \<and>
   map_sum id (queue_invariant \<circ> snd) (ISC_QUEUE_POP queue1) = Inr True \<and>
   map_sum id queue_invariant (ISC_QUEUE_UNLINK False 1 queue1) = Inr True \<and>
   map_sum id queue_invariant (ISC_QUEUE_UNLINKIFLINKED 1 queue1) = Inr True"
proof -
  have u: "\<not> ISC_QLINK_LINKED queue1 2" and l: "ISC_QLINK_LINKED queue1 1"
    by (simp_all add: ISC_QLINK_LINKED_def)
  from queue_invariant_preserved [of queue1 queue1 "[1]" 2 False]
    queue_invariant_preserved [of queue1 queue1 "[1]" 1 False]
    is_queue_queue1 quiescent_queue1 u l
  show ?thesis by auto
qed

lemma unlinkiflinked_again:
  assumes "quiescent s" "link s e = \<lparr>prev = NOT_LINKED, next = NOT_LINKED\<rparr>"
  shows "ISC_QUEUE_UNLINKIFLINKED e s = Inr s"
proof -
  from assms(2) have "\<not> ISC_QLINK_LINKED s e" by (simp add: ISC_QLINK_LINKED_def)
  from unlinkiflinked_unlinked [OF assms(1) this] assms(2) show ?thesis
    by (simp add: fun_upd_idem)
qed

text \<open>
  C8. On a quiescent queue and an element that is not linked, \<open>unlink_if_linked\<close>
  returns and is a no-op on the queue: head, tail and the locks are as before, and so
  is the link of every element other than the one given; if the queue holds the list
  \<open>xs\<close> it holds it afterwards, the link of every element of \<open>xs\<close> unchanged. The
  element given has both link fields set to the not-linked marker; if they were, the
  state is the same. Running it again changes nothing. The same after a first run that
  did unlink an element held by the queue, and after an \<open>unlink\<close> of such an
  element: the run that follows returns the state it was given.
\<close>

theorem unlinkiflinked_not_linked:
  "(quiescent s \<and> \<not> ISC_QLINK_LINKED s e \<longrightarrow>
      (\<exists>s'. ISC_QUEUE_UNLINKIFLINKED e s = Inr s' \<and>
         head s' = head s \<and> tail s' = tail s \<and> quiescent s' \<and>
         (\<forall>a. a \<noteq> e \<longrightarrow> link s' a = link s a) \<and>
         link s' e = \<lparr>prev = NOT_LINKED, next = NOT_LINKED\<rparr> \<and>
         (prev (link s e) = NOT_LINKED \<longrightarrow> s' = s) \<and>
         (\<forall>xs. is_queue s xs \<longrightarrow> is_queue s' xs \<and> (\<forall>a\<in>set xs. link s' a = link s a)) \<and>
         ISC_QUEUE_UNLINKIFLINKED e s' = Inr s')) \<and>
   (is_queue t xs \<and> quiescent t \<and> (ISC_QLINK_LINKED t d \<longrightarrow> d \<in> set xs) \<longrightarrow>
      (\<exists>t'. ISC_QUEUE_UNLINKIFLINKED d t = Inr t' \<and> is_queue t' (remove1 d xs) \<and>
         ISC_QUEUE_UNLINKIFLINKED d t' = Inr t')) \<and>
   (is_queue t xs \<and> quiescent t \<and> d \<in> set xs \<longrightarrow>
      (\<exists>t'. ISC_QUEUE_UNLINK ck d t = Inr t' \<and> is_queue t' (remove1 d xs) \<and>
         ISC_QUEUE_UNLINKIFLINKED d t' = Inr t'))"
proof (intro conjI impI)
  assume "quiescent s \<and> \<not> ISC_QLINK_LINKED s e"
  then have f: "quiescent s" and u: "\<not> ISC_QLINK_LINKED s e" by simp_all
  let ?s' = "s\<lparr>link := (link s)(e := \<lparr>prev = NOT_LINKED, next = NOT_LINKED\<rparr>)\<rparr>"
  note r = unlinkiflinked_unlinked [OF f u]
  have q: "quiescent ?s'" using f by (simp add: quiescent_def)
  have 1: "head ?s' = head s" "tail ?s' = tail s" by simp_all
  have 2: "\<forall>a. a \<noteq> e \<longrightarrow> link ?s' a = link s a" by simp
  have 3: "link ?s' e = \<lparr>prev = NOT_LINKED, next = NOT_LINKED\<rparr>" by simp
  have 4: "prev (link s e) = NOT_LINKED \<longrightarrow> ?s' = s"
  proof
    assume "prev (link s e) = NOT_LINKED"
    with u have "link s e = \<lparr>prev = NOT_LINKED, next = NOT_LINKED\<rparr>"
      by (cases "link s e") (simp add: ISC_QLINK_LINKED_def)
    then show "?s' = s" by (simp add: fun_upd_idem)
  qed
  have 5: "\<forall>xs. is_queue s xs \<longrightarrow> is_queue ?s' xs \<and> (\<forall>a\<in>set xs. link ?s' a = link s a)"
  proof (intro allI impI)
    fix xs assume x: "is_queue s xs"
    from x u have n: "e \<notin> set xs" by (rule is_queue_unlinked_notin)
    from is_queue_reset [OF x n] n
    show "is_queue ?s' xs \<and> (\<forall>a\<in>set xs. link ?s' a = link s a)" by auto
  qed
  note 6 = unlinkiflinked_again [OF q 3]
  from r q 1 2 3 4 5 6
  show "\<exists>s'. ISC_QUEUE_UNLINKIFLINKED e s = Inr s' \<and>
         head s' = head s \<and> tail s' = tail s \<and> quiescent s' \<and>
         (\<forall>a. a \<noteq> e \<longrightarrow> link s' a = link s a) \<and>
         link s' e = \<lparr>prev = NOT_LINKED, next = NOT_LINKED\<rparr> \<and>
         (prev (link s e) = NOT_LINKED \<longrightarrow> s' = s) \<and>
         (\<forall>xs. is_queue s xs \<longrightarrow> is_queue s' xs \<and> (\<forall>a\<in>set xs. link s' a = link s a)) \<and>
         ISC_QUEUE_UNLINKIFLINKED e s' = Inr s'"
    by blast
next
  assume "is_queue t xs \<and> quiescent t \<and> (ISC_QLINK_LINKED t d \<longrightarrow> d \<in> set xs)"
  then have "is_queue t xs" "quiescent t" "ISC_QLINK_LINKED t d \<longrightarrow> d \<in> set xs"
    by simp_all
  from unlinkiflinked_is_queue [OF this] obtain t' where
    "ISC_QUEUE_UNLINKIFLINKED d t = Inr t'" "is_queue t' (remove1 d xs)" "quiescent t'"
    "link t' d = \<lparr>prev = NOT_LINKED, next = NOT_LINKED\<rparr>" by blast
  with unlinkiflinked_again [of t' d]
  show "\<exists>t'. ISC_QUEUE_UNLINKIFLINKED d t = Inr t' \<and> is_queue t' (remove1 d xs) \<and>
          ISC_QUEUE_UNLINKIFLINKED d t' = Inr t'"
    by blast
next
  assume "is_queue t xs \<and> quiescent t \<and> d \<in> set xs"
  then have "is_queue t xs" "quiescent t" "d \<in> set xs" by simp_all
  from unlink_is_queue [OF this, of ck] obtain t' where
    "ISC_QUEUE_UNLINK ck d t = Inr t'" "is_queue t' (remove1 d xs)" "quiescent t'"
    "link t' d = \<lparr>prev = NOT_LINKED, next = NOT_LINKED\<rparr>" by blast
  with unlinkiflinked_again [of t' d]
  show "\<exists>t'. ISC_QUEUE_UNLINK ck d t = Inr t' \<and> is_queue t' (remove1 d xs) \<and>
          ISC_QUEUE_UNLINKIFLINKED d t' = Inr t'"
    by blast
qed

theorem unlinkiflinked_not_linked_witness:
  "quiescent queue1 \<and> \<not> ISC_QLINK_LINKED queue1 2 \<and> is_queue queue1 [1] \<and>
   ISC_QLINK_LINKED queue1 1 \<and>
   ISC_QUEUE_UNLINKIFLINKED 2 queue1 = Inr queue1 \<and>
   (\<exists>t'. ISC_QUEUE_UNLINKIFLINKED 1 queue1 = Inr t' \<and> is_queue t' [] \<and>
      ISC_QUEUE_UNLINKIFLINKED 1 t' = Inr t') \<and>
   (\<exists>t'. ISC_QUEUE_UNLINK False 1 queue1 = Inr t' \<and> is_queue t' [] \<and>
      ISC_QUEUE_UNLINKIFLINKED 1 t' = Inr t')"
proof -
  have u: "\<not> ISC_QLINK_LINKED queue1 2" and l: "ISC_QLINK_LINKED queue1 1"
    by (simp_all add: ISC_QLINK_LINKED_def)
  from unlinkiflinked_not_linked [of queue1 2 queue1 "[1]" 1 False]
    quiescent_queue1 is_queue_queue1 u l
  show ?thesis by auto
qed

end
